theory Spec2Isabelle
  imports Main "HOL-Library.Sublist" "HOL-Library.Word"
begin

section \<open>Shared string helpers (Go package strings)\<close>

text \<open>
  Go strings are byte sequences; they are modelled as \<open>string\<close> (a list of characters).
  \<open>Index s sep\<close> is \<open>strings.Index\<close>: the position of the first occurrence of \<open>sep\<close>
  in \<open>s\<close>, \<open>None\<close> standing for Go's \<open>-1\<close>.
\<close>

fun Index :: "string \<Rightarrow> string \<Rightarrow> nat option" where
  "Index [] sep = (if sep = [] then Some 0 else None)"
| "Index (x # xs) sep =
     (if prefix sep (x # xs) then Some 0 else map_option Suc (Index xs sep))"

text \<open>
  \<open>strings.Cut(s, sep)\<close>: the text before and after the first occurrence of \<open>sep\<close> and
  whether it was found; \<open>(s, "", false)\<close> when \<open>sep\<close> does not occur.
\<close>

definition Cut :: "string \<Rightarrow> string \<Rightarrow> string \<times> string \<times> bool" where
  "Cut s sep =
     (case Index s sep of
        Some i \<Rightarrow> (take i s, drop (i + length sep) s, True)
      | None \<Rightarrow> (s, [], False))"

section \<open>Errors\<close>

text \<open>
  Go \<open>error\<close> values. The named constructors are the errors the modelled code creates or
  tests for; \<open>Err\<close> carries the message of any other error and \<open>Wrapped\<close> is
  \<open>fmt.Errorf\<close> with \<open>%w\<close>: a message around another error. \<open>Panic\<close> is no error a
  function returns: where a result is written as a sum, it stands for a run-time panic
  that ends the call.
\<close>

datatype error =
    ErrNotExist | ErrExist | ErrNotDir | ErrIsDir | ErrPathEscapes | ErrShortWrite
  | ErrIPNotFound | ErrIPVersion | ErrIPv6Disabled | ErrECHNotSupport
  | DeadlineExceeded
  | Err string
  | Wrapped string error
  | Panic string

text \<open>\<open>strconv.Itoa\<close> and the verb \<open>%d\<close> on a number that is not negative.\<close>

fun Itoa :: "nat \<Rightarrow> string" where
  "Itoa n =
     (if n < 10 then [char_of (48 + n)] else Itoa (n div 10) @ [char_of (48 + n mod 10)])"

declare Itoa.simps [simp del]

section \<open>Paths (Go packages strings and path/filepath, Unix separator)\<close>

text \<open>\<open>strings.Split\<close> and \<open>strings.SplitSeq\<close> for a one-character separator.\<close>

fun Split :: "string \<Rightarrow> char \<Rightarrow> string list" where
  "Split [] c = [[]]"
| "Split (x # xs) c =
     (if x = c then [] # Split xs c
      else (case Split xs c of y # ys \<Rightarrow> (x # y) # ys | [] \<Rightarrow> [[x]]))"

definition CutPrefix :: "string \<Rightarrow> string \<Rightarrow> string \<times> bool" where
  "CutPrefix s p = (if prefix p s then (drop (length p) s, True) else (s, False))"

fun Join :: "string list \<Rightarrow> string \<Rightarrow> string" where
  "Join [] sep = []"
| "Join [c] sep = c"
| "Join (c # d # cs) sep = c @ sep @ Join (d # cs) sep"

text \<open>
  \<open>filepath.Clean\<close>: empty and \<open>.\<close> elements are dropped, a \<open>..\<close> element removes the
  element before it (at the start of a rooted path it is dropped, at the start of a
  relative path it is kept), and the empty result is \<open>.\<close>. \<open>cleanElems\<close> keeps the elements
  written so far in reverse.
\<close>

fun cleanElems :: "bool \<Rightarrow> string list \<Rightarrow> string list \<Rightarrow> string list" where
  "cleanElems rooted acc [] = rev acc"
| "cleanElems rooted acc (c # cs) =
     (if c = [] \<or> c = ''.'' then cleanElems rooted acc cs
      else if c = ''..'' then
        (case acc of
           a # as \<Rightarrow>
             (if a \<noteq> ''..'' then cleanElems rooted as cs
              else cleanElems rooted (c # acc) cs)
         | [] \<Rightarrow>
             (if rooted then cleanElems rooted [] cs else cleanElems rooted [c] cs))
      else cleanElems rooted (c # acc) cs)"

definition Clean :: "string \<Rightarrow> string" where
  "Clean p =
     (if p = [] then ''.''
      else
        (let rooted = (hd p = CHR ''/'');
             body = Join (cleanElems rooted [] (Split p (CHR ''/''))) ''/''
         in if rooted then CHR ''/'' # body
            else if body = [] then ''.'' else body))"

text \<open>
  \<open>filepath.Dir\<close>: the path up to and including its last separator (nothing when it has
  none), cleaned.
\<close>

definition Dir :: "string \<Rightarrow> string" where
  "Dir p =
     Clean (take (length p - length (takeWhile (\<lambda>c. c \<noteq> CHR ''/'') (rev p))) p)"

section \<open>The file tree below the home directory (os.Root)\<close>

text \<open>
  A file tree maps the list of path elements below the root to a directory or a file with
  its content; it holds no links. A call on an \<open>os.Root\<close> first splits the path: the
  empty path and an absolute path are refused, empty elements and \<open>.\<close> elements are
  dropped, except a \<open>.\<close> that comes last, and separators after the last element are
  remembered. It then walks the elements from the root: an element that is not the last
  is opened as a directory, so it must exist and be one; a \<open>..\<close> element steps back from
  the directory reached (which was opened before) and is refused at the root. What the
  walk reaches is the target of the call: the elements of a directory reached through a
  closing \<open>.\<close> or \<open>..\<close>, or the directory reached and the last element.
\<close>

type_synonym bytes = string

datatype node = DirNode | FileNode bytes

type_synonym filesys = "string list \<Rightarrow> node option"

definition trailingSep :: "string \<Rightarrow> bool" where
  "trailingSep p = (p \<noteq> [] \<and> last p = CHR ''/'')"

definition splitPathInRoot :: "string \<Rightarrow> error + (string list \<times> bool)" where
  "splitPathInRoot p =
     (if p = [] then Inl (Err ''empty path'')
      else if hd p = CHR ''/'' then Inl ErrPathEscapes
      else
        (case rev (filter (\<lambda>c. c \<noteq> []) (Split p (CHR ''/''))) of
           [] \<Rightarrow> Inl (Err ''empty path'')
         | l # r \<Rightarrow> Inr (filter (\<lambda>c. c \<noteq> ''.'') (rev r) @ [l], trailingSep p)))"

fun doInRoot :: "filesys \<Rightarrow> string list \<Rightarrow> string list \<Rightarrow> error + string list" where
  "doInRoot fs dir [] = Inr dir"
| "doInRoot fs dir (c # cs) =
     (if c = ''..'' then
        (if dir = [] then Inl ErrPathEscapes else doInRoot fs (butlast dir) cs)
      else if cs = [] then Inr (if c = ''.'' then dir else dir @ [c])
      else
        (case fs (dir @ [c]) of
           None \<Rightarrow> Inl ErrNotExist
         | Some DirNode \<Rightarrow> doInRoot fs (dir @ [c]) cs
         | Some (FileNode b) \<Rightarrow> Inl ErrNotDir))"

definition inRoot :: "filesys \<Rightarrow> string \<Rightarrow> error + (string list \<times> bool)" where
  "inRoot fs p =
     (case splitPathInRoot p of
        Inl e \<Rightarrow> Inl e
      | Inr (parts, sep) \<Rightarrow>
          (case doInRoot fs [] parts of
             Inl e \<Rightarrow> Inl e
           | Inr cs \<Rightarrow> Inr (cs, sep)))"

text \<open>Walking down the ancestors of a path: each must exist and be a directory.\<close>

fun walkDirs :: "filesys \<Rightarrow> string list \<Rightarrow> string list \<Rightarrow> error option" where
  "walkDirs fs pre [] = None"
| "walkDirs fs pre (c # cs) =
     (case fs (pre @ [c]) of
        None \<Rightarrow> Some ErrNotExist
      | Some DirNode \<Rightarrow> walkDirs fs (pre @ [c]) cs
      | Some (FileNode _) \<Rightarrow> Some ErrNotDir)"

text \<open>
  The environment of \<open>safeWrite\<close>: the home directory (\<open>C.Path.HomeDir()\<close>); the error
  of \<open>os.OpenRoot\<close> if it fails; for each call on the root and each path, the error with
  which the operating system refuses the call for a reason that is not in the tree (a
  permission, the length of a name, a read-only or full file system, a link that leads
  out of the root), if it does; and, if the write fails, the number of bytes that reached
  the file before it did.
\<close>

datatype sysop = OpStat | OpMkdir | OpOpenFile

record senv =
  homeDir :: string
  openRootErr :: "error option"
  refuses :: "sysop \<Rightarrow> string \<Rightarrow> error option"
  writeFault :: "nat option"

text \<open>
  \<open>root.Stat\<close>, \<open>root.Mkdir\<close> and
  \<open>root.OpenFile(path, O_CREATE|O_WRONLY|O_TRUNC, fileMode)\<close>. A path ending in a
  separator names a directory. The file opened is created when missing and cut to length
  zero when present; the result of the open is the handle (the elements of the opened
  path) and the tree after the call.
\<close>

definition Stat :: "senv \<Rightarrow> filesys \<Rightarrow> string \<Rightarrow> error + node" where
  "Stat env fs p =
     (case refuses env OpStat p of
        Some e \<Rightarrow> Inl e
      | None \<Rightarrow>
          (case inRoot fs p of
             Inl e \<Rightarrow> Inl e
           | Inr (cs, sep) \<Rightarrow>
               (if cs = [] then Inr DirNode
                else
                  (case fs cs of
                     None \<Rightarrow> Inl ErrNotExist
                   | Some DirNode \<Rightarrow> Inr DirNode
                   | Some (FileNode b) \<Rightarrow>
                       (if sep then Inl ErrNotDir else Inr (FileNode b))))))"

definition IsNotExist :: "error \<Rightarrow> bool" where
  "IsNotExist e = (e = ErrNotExist)"

definition Mkdir :: "senv \<Rightarrow> filesys \<Rightarrow> string \<Rightarrow> error + filesys" where
  "Mkdir env fs p =
     (case refuses env OpMkdir p of
        Some e \<Rightarrow> Inl e
      | None \<Rightarrow>
          (case inRoot fs p of
             Inl e \<Rightarrow> Inl e
           | Inr (cs, sep) \<Rightarrow>
               (if cs = [] then Inl ErrExist
                else
                  (case fs cs of
                     None \<Rightarrow> Inr (fs(cs \<mapsto> DirNode))
                   | Some n \<Rightarrow> Inl ErrExist))))"

definition OpenFile :: "senv \<Rightarrow> filesys \<Rightarrow> string \<Rightarrow> error + (string list \<times> filesys)" where
  "OpenFile env fs p =
     (case refuses env OpOpenFile p of
        Some e \<Rightarrow> Inl e
      | None \<Rightarrow>
          (case inRoot fs p of
             Inl e \<Rightarrow> Inl e
           | Inr (cs, sep) \<Rightarrow>
               (if cs = [] \<or> sep then Inl ErrIsDir
                else
                  (case fs cs of
                     Some DirNode \<Rightarrow> Inl ErrIsDir
                   | Some (FileNode b) \<Rightarrow> Inr (cs, fs(cs \<mapsto> FileNode []))
                   | None \<Rightarrow> Inr (cs, fs(cs \<mapsto> FileNode []))))))"

definition Write :: "senv \<Rightarrow> filesys \<Rightarrow> string list \<Rightarrow> bytes \<Rightarrow> error option \<times> filesys" where
  "Write env fs fd buf =
     (case writeFault env of
        None \<Rightarrow> (None, fs(fd \<mapsto> FileNode buf))
      | Some n \<Rightarrow>
          (if n < length buf then (Some ErrShortWrite, fs(fd \<mapsto> FileNode (take n buf)))
           else (None, fs(fd \<mapsto> FileNode buf))))"

section \<open>Provider fetcher (package provider)\<close>

subsection \<open>\<open>safeWrite\<close>\<close>

text \<open>
  The loop over the elements of \<open>dir\<close>: \<open>d\<close> grows by one element and a separator per
  round, and a directory is made where \<open>root.Stat(d)\<close> reports that nothing exists. The
  history \<open>h\<close> lists the successive states of the file tree, the last being the current one;
  these are the states another process can observe.
\<close>

fun mkdirEach ::
  "senv \<Rightarrow> filesys list \<Rightarrow> string \<Rightarrow> string list \<Rightarrow> error option \<times> filesys list" where
  "mkdirEach env h d [] = (None, h)"
| "mkdirEach env h d (s # ss) =
     (let d' = d @ s @ ''/'' in
      case Stat env (last h) d' of
        Inr n \<Rightarrow> mkdirEach env h d' ss
      | Inl e \<Rightarrow>
          (if IsNotExist e then
             (case Mkdir env (last h) d' of
                Inl e' \<Rightarrow> (Some e', h)
              | Inr fs' \<Rightarrow> mkdirEach env (h @ [fs']) d' ss)
           else mkdirEach env h d' ss))"

text \<open>
  The path below the root, \<open>strings.CutPrefix(path, root.Name() + "/")\<close>, and the block
  that makes the missing directories when \<open>root.Stat(dir)\<close> reports that \<open>dir\<close> does not
  exist.
\<close>

definition relPath :: "senv \<Rightarrow> string \<Rightarrow> string" where
  "relPath env path = fst (CutPrefix path (homeDir env @ ''/''))"

definition makeDirs :: "senv \<Rightarrow> filesys \<Rightarrow> string \<Rightarrow> error option \<times> filesys list" where
  "makeDirs env fs dir =
     (case Stat env fs dir of
        Inr n \<Rightarrow> (None, [fs])
      | Inl e \<Rightarrow>
          (if IsNotExist e then mkdirEach env [fs] [] (Split dir (CHR ''/''))
           else (None, [fs])))"

text \<open>
  \<open>safeWrite\<close> returns its error and the history of the file tree: the tree it found,
  then the tree after each call that changed it.
\<close>

definition safeWrite :: "senv \<Rightarrow> filesys \<Rightarrow> string \<Rightarrow> bytes \<Rightarrow> error option \<times> filesys list" where
  "safeWrite env fs path buf =
     (case openRootErr env of
        Some e \<Rightarrow> (Some e, [fs])
      | None \<Rightarrow>
          (let path' = relPath env path;
               dir = Dir path'
           in case makeDirs env fs dir of
                (Some e, h) \<Rightarrow> (Some e, h)
              | (None, h) \<Rightarrow>
                  (case OpenFile env (last h) path' of
                     Inl e \<Rightarrow> (Some e, h)
                   | Inr (fd, fs1) \<Rightarrow>
                       (let (err, fs2) = Write env fs1 fd buf
                        in (err, h @ [fs1, fs2])))))"

text \<open>
  The element list of the file \<open>safeWrite\<close> opens: what its path names when every
  directory on the way is there. And what a tree \<open>s\<close> of the history may differ in from
  the tree \<open>fs\<close> found: directories that were missing, and, at the opened file itself, a
  content that is an initial part of the bytes to write.
\<close>

definition target :: "senv \<Rightarrow> string \<Rightarrow> string list option" where
  "target env path =
     (case inRoot (\<lambda>q. Some DirNode) (relPath env path) of
        Inl e \<Rightarrow> None
      | Inr (cs, sep) \<Rightarrow> Some cs)"

definition inPlace :: "filesys \<Rightarrow> string list option \<Rightarrow> bytes \<Rightarrow> filesys \<Rightarrow> bool" where
  "inPlace fs tgt buf s =
     (\<forall>q. s q = fs q \<or> (fs q = None \<and> s q = Some DirNode) \<or>
          (tgt = Some q \<and> (\<exists>n. s q = Some (FileNode (take n buf)))))"

text \<open>
  Paths made of plain names: a plain element is a non-empty name other than \<open>.\<close> and
  \<open>..\<close> that holds no separator, and \<open>slashed\<close> writes each element followed by a
  separator, as the loop over the elements of \<open>dir\<close> builds \<open>d\<close>. \<open>willing\<close> is an
  operating system that refuses no call on the root.
\<close>

definition plain :: "string \<Rightarrow> bool" where
  "plain c = (c \<noteq> [] \<and> CHR ''/'' \<notin> set c \<and> c \<noteq> ''.'' \<and> c \<noteq> ''..'')"

definition slashed :: "string list \<Rightarrow> string" where
  "slashed cs = concat (map (\<lambda>c. c @ ''/'') cs)"

definition willing :: "senv \<Rightarrow> bool" where
  "willing env = (\<forall>op p. refuses env op p = None)"

subsection \<open>The fetcher\<close>

text \<open>
  \<open>hash\<close> is the \<open>[16]byte\<close> of \<open>md5.Sum\<close>; the digest function itself is a parameter
  \<open>md5Sum\<close> of the model. Times are nanoseconds.
\<close>

type_synonym hash = "nat list"

datatype VehicleType = File | HTTP | Compatible

text \<open>
  A channel of \<open>struct{}\<close> values: its capacity and the number of values waiting in its
  buffer. An operation on a channel either proceeds or blocks its goroutine. \<open>send\<close> is
  the statement \<open>ch <- v\<close> when no receiver waits: it proceeds when the buffer has room
  and blocks otherwise. \<open>selectSendDefault\<close> is
  \<open>select { case ch <- v: default: }\<close>: the send if it can proceed, else the empty
  default case.
\<close>

record chan =
  chanCap :: nat
  chanLen :: nat

definition makeChan :: "nat \<Rightarrow> chan" where
  "makeChan n = \<lparr> chanCap = n, chanLen = 0 \<rparr>"

datatype 'a blocking = Blocks | Proceeds 'a

definition send :: "chan \<Rightarrow> chan blocking" where
  "send c = (if chanLen c < chanCap c then Proceeds (c\<lparr>chanLen := chanLen c + 1\<rparr>) else Blocks)"

definition selectSendDefault :: "chan \<Rightarrow> chan blocking" where
  "selectSendDefault c = (case send c of Proceeds c' \<Rightarrow> Proceeds c' | Blocks \<Rightarrow> Proceeds c)"

definition tryRecv :: "chan \<Rightarrow> chan option" where
  "tryRecv c = (if 0 < chanLen c then Some (c\<lparr>chanLen := chanLen c - 1\<rparr>) else None)"

text \<open>
  The fetcher. \<open>ticker\<close> is \<open>None\<close> for a nil \<open>*time.Ticker\<close> and otherwise tells whether
  the ticker still runs; \<open>tmUpdate\<close> tells whether a delayed first update is pending (a
  non-nil \<open>*time.Timer\<close>); \<open>onUpdate\<close> tells whether the callback is non-nil. The
  vehicle is represented by what the fetcher asks of it: its type and its path (its
  \<open>Read\<close> is part of \<open>tick\<close> below).
\<close>

record 'v fetcher =
  name :: string
  vehicleType :: VehicleType
  vehiclePath :: string
  interval :: int
  updatedAt :: "int option"
  ticker :: "bool option"
  tmUpdate :: bool
  doneCh :: chan
  hash :: hash
  parser :: "bytes \<Rightarrow> error + 'v"
  onUpdate :: bool

text \<open>
  The calls the fetcher makes whose effect lies outside it, in the order made:
  \<open>os.Chtimes(path, atime, mtime)\<close> and \<open>f.onUpdate(elm)\<close>. The world is the file tree
  below the home directory and this record of calls.
\<close>

datatype 'v call = Chtimes string int int | OnUpdate "'v option"

record 'v world =
  files :: filesys
  calls :: "'v call list"

text \<open>
  What one update meets: the result of \<open>f.vehicle.Read()\<close>, the reading of \<open>time.Now()\<close>
  and the environment of \<open>safeWrite\<close>.
\<close>

record tick =
  readResult :: "error + bytes"
  now :: int
  writeEnv :: senv

text \<open>
  The step of \<open>Update\<close> that stores the fetched bytes: \<open>safeWrite\<close> unless the vehicle
  is a file vehicle, whose path already holds them.
\<close>

definition persist :: "tick \<Rightarrow> 'v fetcher \<Rightarrow> 'v world \<Rightarrow> bytes \<Rightarrow> error option \<times> filesys list" where
  "persist t f w buf =
     (if vehicleType f \<noteq> File
      then safeWrite (writeEnv t) (files w) (vehiclePath f) buf
      else (None, [files w]))"

text \<open>
  \<open>Update\<close> returns Go's triple \<open>(elm, same, err)\<close>, where \<open>None\<close> as \<open>elm\<close> is the
  zero value \<open>lo.Empty[V]()\<close>, with the fetcher and the world after the call.
\<close>

definition Update ::
  "(bytes \<Rightarrow> hash) \<Rightarrow> tick \<Rightarrow> 'v fetcher \<Rightarrow> 'v world \<Rightarrow>
   ('v option \<times> bool \<times> error option) \<times> 'v fetcher \<times> 'v world" where
  "Update md5Sum t f w =
     (case readResult t of
        Inl err \<Rightarrow> ((None, False, Some err), f, w)
      | Inr buf \<Rightarrow>
          (let h = md5Sum buf in
           if hash f = h then
             ((None, True, None),
              f\<lparr>updatedAt := Some (now t)\<rparr>,
              w\<lparr>calls := calls w @ [Chtimes (vehiclePath f) (now t) (now t)]\<rparr>)
           else
             (case parser f buf of
                Inl err \<Rightarrow> ((None, False, Some err), f, w)
              | Inr proxies \<Rightarrow>
                  (case persist t f w buf of
                     (Some err, hist) \<Rightarrow> ((None, False, Some err), f, w\<lparr>files := last hist\<rparr>)
                   | (None, hist) \<Rightarrow>
                       ((Some proxies, False, None),
                        f\<lparr>updatedAt := Some (now t), hash := h\<rparr>,
                        w\<lparr>files := last hist\<rparr>)))))"

text \<open>The closure \<open>update\<close> of \<open>pullLoop\<close>, run once per tick (log lines left out).\<close>

definition update ::
  "(bytes \<Rightarrow> hash) \<Rightarrow> tick \<Rightarrow> 'v fetcher \<Rightarrow> 'v world \<Rightarrow> 'v fetcher \<times> 'v world" where
  "update md5Sum t f w =
     (case Update md5Sum t f w of
        ((elm, same, err), f', w') \<Rightarrow>
          (if err \<noteq> None then (f', w')
           else if same then (f', w')
           else if onUpdate f' then (f', w'\<lparr>calls := calls w' @ [OnUpdate elm]\<rparr>)
           else (f', w')))"

text \<open>
  The loop of \<open>pullLoop\<close>, driven by the list of cases its \<open>select\<close> takes: a tick of
  \<open>f.ticker.C\<close> with what the update meets, or a value received from \<open>f.done\<close>. The
  result tells whether the loop has returned. A receive is possible only when a value
  waits in the channel.
\<close>

datatype selected = TickerC tick | DoneC

fun pullLoopSteps ::
  "(bytes \<Rightarrow> hash) \<Rightarrow> selected list \<Rightarrow> 'v fetcher \<Rightarrow> 'v world \<Rightarrow>
   bool \<times> 'v fetcher \<times> 'v world" where
  "pullLoopSteps md5Sum [] f w = (False, f, w)"
| "pullLoopSteps md5Sum (TickerC t # es) f w =
     (case update md5Sum t f w of (f', w') \<Rightarrow> pullLoopSteps md5Sum es f' w')"
| "pullLoopSteps md5Sum (DoneC # es) f w =
     (case tryRecv (doneCh f) of
        None \<Rightarrow> pullLoopSteps md5Sum es f w
      | Some c \<Rightarrow> (True, f\<lparr>doneCh := c, ticker := Some False\<rparr>, w))"

definition pullLoop ::
  "(bytes \<Rightarrow> hash) \<Rightarrow> bool \<Rightarrow> selected list \<Rightarrow> 'v fetcher \<Rightarrow> 'v world \<Rightarrow>
   bool \<times> 'v fetcher \<times> 'v world" where
  "pullLoop md5Sum immediately es f w =
     (let f1 = (if immediately then f\<lparr>tmUpdate := True\<rparr> else f)
      in if ticker f1 = None then (True, f1, w) else pullLoopSteps md5Sum es f1 w)"

text \<open>
  The function \<open>pullLoop\<close> hands to \<open>time.AfterFunc\<close>: when the timer fires it runs
  \<open>update\<close> and sets \<open>f.tmUpdate\<close> to nil. A timer that was stopped or dropped does not
  fire.
\<close>

definition delayedUpdate ::
  "(bytes \<Rightarrow> hash) \<Rightarrow> tick \<Rightarrow> 'v fetcher \<Rightarrow> 'v world \<Rightarrow> 'v fetcher \<times> 'v world" where
  "delayedUpdate md5Sum t f w =
     (if tmUpdate f then
        (case update md5Sum t f w of (f', w') \<Rightarrow> (f'\<lparr>tmUpdate := False\<rparr>, w'))
      else (f, w))"

text \<open>
  \<open>Destroy\<close>: stop and drop the pending timer; when there is a ticker, signal the loop
  through \<open>select { case f.done <- struct{}{}: default: }\<close>. The result tells whether
  the call blocks and otherwise gives the returned error and the fetcher after the call.
\<close>

definition Destroy :: "'v fetcher \<Rightarrow> (error option \<times> 'v fetcher) blocking" where
  "Destroy f =
     (let f1 = (if tmUpdate f then f\<lparr>tmUpdate := False\<rparr> else f)
      in if ticker f1 \<noteq> None then
           (case selectSendDefault (doneCh f1) of
              Blocks \<Rightarrow> Blocks
            | Proceeds c \<Rightarrow> Proceeds (None, f1\<lparr>doneCh := c\<rparr>))
         else Proceeds (None, f1))"

definition newFetcher ::
  "string \<Rightarrow> int \<Rightarrow> VehicleType \<Rightarrow> string \<Rightarrow> (bytes \<Rightarrow> error + 'v) \<Rightarrow> bool \<Rightarrow> 'v fetcher" where
  "newFetcher nm intv vt vpath prs onUpd =
     (let intv1 = (if intv < 0 then 0 else intv);
          tk = (if intv1 \<noteq> 0 then Some True else None)
      in \<lparr> name = nm, vehicleType = vt, vehiclePath = vpath, interval = intv1,
           updatedAt = None, ticker = tk, tmUpdate = False, doneCh = makeChan 1,
           hash = replicate 16 0, parser = prs, onUpdate = onUpd \<rparr>)"

subsection \<open>Concrete inputs for the fetcher\<close>

text \<open>
  A stand-in digest for evaluation (sixteen bytes that depend on the length only), a
  home directory, two file trees, a fetcher over an HTTP vehicle and ticks that fetch
  given bytes.
\<close>

definition digest0 :: "bytes \<Rightarrow> hash" where
  "digest0 b = replicate 16 (length b)"

definition env0 :: senv where
  "env0 =
     \<lparr> homeDir = ''/home/u'', openRootErr = None, refuses = (\<lambda>op p. None),
       writeFault = None \<rparr>"

definition tree0 :: filesys where
  "tree0 =
     (Map.empty([''providers''] \<mapsto> DirNode))([''providers'', ''p.yaml''] \<mapsto> FileNode ''old'')"

definition world0 :: "string world" where
  "world0 = \<lparr> files = tree0, calls = [] \<rparr>"

definition parser0 :: "bytes \<Rightarrow> error + string" where
  "parser0 b = (if b = ''bad'' then Inl (Err ''parse failure'') else Inr b)"

definition fetcher0 :: "string fetcher" where
  "fetcher0 = newFetcher ''p'' 60 HTTP ''/home/u/providers/p.yaml'' parser0 True"

definition tick0 :: "bytes \<Rightarrow> tick" where
  "tick0 b = \<lparr> readResult = Inr b, now = 1000, writeEnv = env0 \<rparr>"

section \<open>DNS over HTTPS client (dns/doh.go)\<close>

text \<open>
  Durations and times are nanoseconds. \<open>DefaultDNSTimeout\<close> is the initial value of the
  variable of that name in package resolver.
\<close>

definition Second :: int where
  "Second = 1000000000"

definition proxyTimeout :: int where
  "proxyTimeout = 10 * Second"

definition DefaultDNSTimeout :: int where
  "DefaultDNSTimeout = Second * 5"

text \<open>
  A \<open>context.Context\<close>, as far as the modelled code reads it: its deadline if it has
  one, the string stored under the resolver package's \<open>proxyKey\<close> (read by
  \<open>resolver.GetProxy\<close>), whether a value is stored under the resolver package's
  \<open>proxyServerHostKey\<close>, and the string stored under package dns's \<open>proxyKey\<close> (read by
  \<open>getConn\<close>).
\<close>

record ctx =
  ctxDeadline :: "int option"
  ctxResolverProxy :: "string option"
  ctxProxyServerHost :: bool
  ctxDohProxy :: "string option"

definition GetProxy :: "ctx \<Rightarrow> string \<times> bool" where
  "GetProxy c = (case ctxResolverProxy c of Some v \<Rightarrow> (v, True) | None \<Rightarrow> ([], False))"

text \<open>
  \<open>context.WithTimeout(parent, d)\<close> at time \<open>t\<close>: the deadline \<open>t + d\<close>, unless the
  parent's deadline is earlier.
\<close>

definition WithTimeout :: "int \<Rightarrow> ctx \<Rightarrow> int \<Rightarrow> ctx" where
  "WithTimeout t c d =
     (case ctxDeadline c of
        None \<Rightarrow> c\<lparr>ctxDeadline := Some (t + d)\<rparr>
      | Some p \<Rightarrow> c\<lparr>ctxDeadline := Some (min p (t + d))\<rparr>)"

text \<open>
  A DNS message (\<open>dns.Msg\<close>): the identifier of its header, its questions and its
  resource records. Messages live in a store, a list indexed by pointers; a pointer
  beyond the store is nil or dangling and reading through it panics.
\<close>

record msg =
  Id :: "16 word"
  Question :: "string list"
  Answer :: "string list"

type_synonym heap = "msg list"

record httpRequest =
  reqUrl :: string
  reqBody :: bytes
  reqHeader :: "(string \<times> string) list"
  reqCtx :: ctx

record dohClient =
  url :: string
  addr :: string
  proxy :: string
  urlLog :: string
  resolved :: bool
  timeout :: int

text \<open>
  What lies outside doh.go: URL and address parsing, the resolver's lookup, the random
  number, packing and unpacking of messages, the proxy table of package tunnel, the
  clock, and the HTTP exchange (the error of \<open>getConn\<close> if any, then the result of
  \<open>client.Do\<close>, a response whose body reads as an error or as bytes). The client is
  modelled for a URL that \<open>url.Parse\<close> accepts, of which \<open>urlHostname\<close> and \<open>urlPort\<close>
  give the host and the port; on any other URL \<open>newDoHClient\<close> panics and there is no
  client.
\<close>

record dohEnv =
  urlHostname :: "string \<Rightarrow> string"
  urlPort :: "string \<Rightarrow> string"
  urlWithHost :: "string \<Rightarrow> string \<Rightarrow> string"
  parseAddrOk :: "string \<Rightarrow> bool"
  splitHostPort :: "string \<Rightarrow> string \<times> string"
  lookupIP :: "string \<Rightarrow> error + string list"
  randIntn :: nat
  pack :: "msg \<Rightarrow> error + bytes"
  unpack :: "bytes \<Rightarrow> msg \<times> error option"
  httpNewRequestErr :: "string \<Rightarrow> error option"
  findProxyByName :: "string \<Rightarrow> bool"
  dohNow :: int
  getConnErr :: "ctx \<Rightarrow> string \<Rightarrow> error option"
  clientDo :: "httpRequest \<Rightarrow> bool \<Rightarrow> error + (error + bytes)"

definition JoinHostPort :: "string \<Rightarrow> string \<Rightarrow> string" where
  "JoinHostPort host port =
     (if CHR '':'' \<in> set host then ''['' @ host @ '']:'' @ port
      else host @ '':'' @ port)"

definition newDoHClient :: "dohEnv \<Rightarrow> string \<Rightarrow> string \<Rightarrow> dohClient" where
  "newDoHClient env u prx =
     (let host = urlHostname env u;
          port0 = urlPort env u;
          port = (if port0 = [] then ''443'' else port0);
          ad = JoinHostPort host port;
          tmo = (if prx \<noteq> [] then proxyTimeout else DefaultDNSTimeout);
          res = parseAddrOk env host
      in \<lparr> url = u, addr = ad, proxy = prx, urlLog = u, resolved = res, timeout = tmo \<rparr>)"

text \<open>A function either returns or panics.\<close>

datatype 'a outcome = Panics | Returns 'a

text \<open>\<open>context.Background()\<close>, the context of a request made by \<open>http.NewRequest\<close>.\<close>

definition Background :: ctx where
  "Background =
     \<lparr> ctxDeadline = None, ctxResolverProxy = None, ctxProxyServerHost = False,
       ctxDohProxy = None \<rparr>"

definition newRequest :: "dohEnv \<Rightarrow> dohClient \<Rightarrow> msg \<Rightarrow> error + httpRequest" where
  "newRequest env dc m =
     (case pack env m of
        Inl e \<Rightarrow> Inl e
      | Inr buf \<Rightarrow>
          (case httpNewRequestErr env (url dc) of
             Some e \<Rightarrow> Inl e
           | None \<Rightarrow>
               Inr \<lparr> reqUrl = url dc, reqBody = buf,
                     reqHeader = [(''content-type'', ''application/dns-message''),
                                  (''accept'', ''application/dns-message'')],
                     reqCtx = Background \<rparr>))"

text \<open>
  \<open>doRequest\<close> returns the pointer to the answer (a message it allocates) and the error,
  with the store and the list of requests that went out.
\<close>

definition doRequest ::
  "dohEnv \<Rightarrow> dohClient \<Rightarrow> ctx \<Rightarrow> httpRequest \<Rightarrow> bool \<Rightarrow> heap \<Rightarrow>
   (nat option \<times> error option) \<times> heap \<times> httpRequest list" where
  "doRequest env dc c req hasProxy hp =
     (case (if hasProxy then getConnErr env c (addr dc) else None) of
        Some e \<Rightarrow> ((None, Some e), hp, [])
      | None \<Rightarrow>
          (case clientDo env req hasProxy of
             Inl e \<Rightarrow> ((None, Some e), hp, [req])
           | Inr body \<Rightarrow>
               (case body of
                  Inl e \<Rightarrow> ((None, Some e), hp, [req])
                | Inr buf \<Rightarrow>
                    (case unpack env buf of
                       (m, err) \<Rightarrow> ((Some (length hp), err), hp @ [m], [req])))))"

text \<open>
  The context of the exchange: the effective proxy is the client's, overridden by the
  one the caller's context carries; a non-empty proxy is stored under this package's key;
  a context without a deadline gets the client's timeout.
\<close>

definition exchangeProxy :: "dohClient \<Rightarrow> ctx \<Rightarrow> string" where
  "exchangeProxy dc c = (case GetProxy c of (p, ok) \<Rightarrow> if ok then p else proxy dc)"

definition exchangeHasProxy :: "dohEnv \<Rightarrow> dohClient \<Rightarrow> ctx \<Rightarrow> bool" where
  "exchangeHasProxy env dc c =
     (let prx = exchangeProxy dc c in if prx \<noteq> [] then findProxyByName env prx else False)"

definition exchangeCtx :: "dohEnv \<Rightarrow> dohClient \<Rightarrow> ctx \<Rightarrow> ctx" where
  "exchangeCtx env dc c =
     (let prx = exchangeProxy dc c;
          c1 = (if prx \<noteq> [] then c\<lparr>ctxDohProxy := Some prx\<rparr> else c)
      in case ctxDeadline c1 of
           Some d \<Rightarrow> c1
         | None \<Rightarrow> WithTimeout (dohNow env) c1 (timeout dc))"

text \<open>
  The first block of \<open>ExchangeContext\<close>: a client whose host is a name resolves it once
  and rewrites its URL and address. It panics when the lookup returns no address without
  an error (\<open>rand.Intn(0)\<close>).
\<close>

definition locate :: "dohEnv \<Rightarrow> dohClient \<Rightarrow> (error + dohClient) outcome" where
  "locate env dc =
     (if resolved dc then Returns (Inr dc)
      else
        (case splitHostPort env (addr dc) of
           (host, port) \<Rightarrow>
             (case lookupIP env host of
                Inl e \<Rightarrow> Returns (Inl e)
              | Inr ips \<Rightarrow>
                  (if ips = [] then Panics
                   else
                     (let a = JoinHostPort (ips ! (randIntn env mod length ips)) port
                      in Returns (Inr (dc\<lparr>url := urlWithHost env (url dc) a,
                                          addr := a, resolved := True\<rparr>)))))))"

text \<open>
  \<open>ExchangeContext\<close> on the message at pointer \<open>m\<close>. The result is the returned pair
  \<open>(msg, err)\<close>, the client, the store and the requests sent. The copy \<open>newM\<close> is a local
  value; \<open>msg.Id = m.Id\<close> writes into the answer. Besides the panic of the first block,
  the call panics when \<open>m\<close> is not a message of the store and when the message has no
  question (\<open>m.Question[0]\<close>).
\<close>

definition ExchangeContext ::
  "dohEnv \<Rightarrow> dohClient \<Rightarrow> ctx \<Rightarrow> nat \<Rightarrow> heap \<Rightarrow>
   ((nat option \<times> error option) \<times> dohClient \<times> heap \<times> httpRequest list) outcome" where
  "ExchangeContext env dc c m hp =
     (if \<not> m < length hp then Panics
      else
        (case locate env dc of
           Panics \<Rightarrow> Panics
         | Returns (Inl e) \<Rightarrow> Returns ((None, Some e), dc, hp, [])
         | Returns (Inr dc1) \<Rightarrow>
             (let newM = (hp ! m)\<lparr>Id := 0\<rparr>
              in case newRequest env dc1 newM of
                   Inl e \<Rightarrow> Returns ((None, Some e), dc1, hp, [])
                 | Inr req0 \<Rightarrow>
                     (case (let c2 = exchangeCtx env dc1 c;
                                req = req0\<lparr>reqCtx := c2\<rparr>
                            in doRequest env dc1 c2 req (exchangeHasProxy env dc1 c) hp) of
                        ((r, err), hp1, sent) \<Rightarrow>
                          (let hp2 =
                                 (case (r, err) of
                                    (Some p, None) \<Rightarrow>
                                      hp1[p := (hp1 ! p)\<lparr>Id := Id (hp1 ! m)\<rparr>]
                                  | _ \<Rightarrow> hp1)
                           in if Question (hp2 ! m) = [] then Panics
                              else Returns ((r, err), dc1, hp2, sent))))))"

text \<open>Concrete inputs for the client.\<close>

definition dohEnv0 :: dohEnv where
  "dohEnv0 =
     \<lparr> urlHostname = (\<lambda>u. ''1.1.1.1''), urlPort = (\<lambda>u. []),
       urlWithHost = (\<lambda>u h. u), parseAddrOk = (\<lambda>h. True),
       splitHostPort = (\<lambda>a. (''1.1.1.1'', ''443'')),
       lookupIP = (\<lambda>h. Inr [''1.1.1.1'']), randIntn = 7,
       pack = (\<lambda>m. Inr (''id='' @ (if Id m = 0 then ''0'' else ''x''))),
       unpack = (\<lambda>b. (\<lparr> Id = 0, Question = [''example.com. A''], Answer = [''93.184.216.34''] \<rparr>, None)),
       httpNewRequestErr = (\<lambda>u. None),
       findProxyByName = (\<lambda>n. n = ''P''),
       dohNow = 100,
       getConnErr = (\<lambda>c a. None),
       clientDo = (\<lambda>q p. Inr (Inr ''answer'')) \<rparr>"

definition query0 :: msg where
  "query0 = \<lparr> Id = 4660, Question = [''example.com. A''], Answer = [] \<rparr>"

definition ctxProxyP :: ctx where
  "ctxProxyP =
     \<lparr> ctxDeadline = None, ctxResolverProxy = Some ''P'', ctxProxyServerHost = False,
       ctxDohProxy = None \<rparr>"

section \<open>Resolving a host to one address (package resolver)\<close>

text \<open>
  A \<open>netip.Addr\<close>: the zero value, an IPv4 address, an IPv6 address, or an IPv6 address
  that maps an IPv4 address. \<open>Unmap\<close> turns the last into the IPv4 address; \<open>Is4\<close> holds
  of IPv4 addresses only and \<open>Is6\<close> of both IPv6 forms.
\<close>

datatype netaddr = ZeroAddr | IPv4 nat | IPv6 nat | IPv4in6 nat

fun Unmap :: "netaddr \<Rightarrow> netaddr" where
  "Unmap (IPv4in6 a) = IPv4 a"
| "Unmap x = x"

fun Is4 :: "netaddr \<Rightarrow> bool" where
  "Is4 (IPv4 a) = True"
| "Is4 x = False"

fun Is6 :: "netaddr \<Rightarrow> bool" where
  "Is6 (IPv6 a) = True"
| "Is6 (IPv4in6 a) = True"
| "Is6 x = False"

definition typeNone :: "16 word" where "typeNone = 0"
definition typeA :: "16 word" where "typeA = 1"
definition typeAAAA :: "16 word" where "typeAAAA = 28"

text \<open>
  The lookups of the \<open>Resolver\<close> interface return Go's pair of an address list and an
  error. The implementations of the interface are parameters of the model.
\<close>

type_synonym lookup = "ctx \<Rightarrow> string \<Rightarrow> netaddr list \<times> error option"

record resolver =
  rLookupIP :: lookup
  rLookupIPv4 :: lookup
  rLookupIPv6 :: lookup

text \<open>
  The package variables and what the package calls outside itself: the hosts table
  (\<open>DefaultHosts.Search(host)\<close> and the data of the node found), \<open>netip.ParseAddr\<close>, the
  system resolver \<open>net.DefaultResolver.LookupIP(ctx, network, host)\<close> with each address
  already passed through \<open>netip.AddrFromSlice\<close>, and the number drawn by \<open>rand\<close>.
\<close>

record resolverEnv =
  DefaultResolver :: "resolver option"
  DisableIPv6 :: bool
  needProxyHostIPv6 :: bool
  DefaultHosts :: "string \<Rightarrow> netaddr option"
  ParseAddr :: "string \<Rightarrow> netaddr option"
  netLookupIP :: "ctx \<Rightarrow> string \<Rightarrow> string \<Rightarrow> netaddr list \<times> error option"
  randDraw :: nat

text \<open>
  \<open>lookupIPByResolverAndType\<close> in its four parts: the hosts table, the given resolver,
  the literal address and the system resolver.
\<close>

definition hostsHit :: "resolverEnv \<Rightarrow> string \<Rightarrow> 16 word \<Rightarrow> netaddr option" where
  "hostsHit env host t =
     (case DefaultHosts env host of
        None \<Rightarrow> None
      | Some d \<Rightarrow>
          (let ip = (if t \<noteq> typeAAAA then Unmap d else d)
           in if t = typeNone \<or> (t = typeA \<and> Is4 ip) \<or> (t = typeAAAA \<and> Is6 ip)
              then Some ip else None))"

definition viaResolver ::
  "resolverEnv \<Rightarrow> resolver \<Rightarrow> ctx \<Rightarrow> string \<Rightarrow> 16 word \<Rightarrow> bool \<Rightarrow>
   netaddr list \<times> error option" where
  "viaResolver env rs c host t both =
     (if t = typeA then rLookupIPv4 rs c host
      else if t = typeAAAA then rLookupIPv6 rs c host
      else if DisableIPv6 env \<and> \<not> both then rLookupIPv4 rs c host
      else rLookupIP rs c host)"

definition viaSystem ::
  "resolverEnv \<Rightarrow> ctx \<Rightarrow> string \<Rightarrow> 16 word \<Rightarrow> netaddr list \<times> error option" where
  "viaSystem env c host t =
     (case ParseAddr env host of
        Some ip0 \<Rightarrow>
          (let ip = (if t \<noteq> typeAAAA then Unmap ip0 else ip0);
               is4 = Is4 ip
           in if (t = typeA \<and> \<not> is4) \<or> (t = typeAAAA \<and> is4) then ([], Some ErrIPVersion)
              else ([ip], None))
      | None \<Rightarrow>
          (let network = (if t = typeA then ''ip4'' else if t = typeAAAA then ''ip6'' else ''ip'')
           in case netLookupIP env c network host of
                (ips, Some e) \<Rightarrow> ([], Some e)
              | (ips, None) \<Rightarrow>
                  (if length ips = 0 then ([], Some ErrIPNotFound)
                   else (map (\<lambda>item. if t \<noteq> typeAAAA then Unmap item else item) ips,
                         None))))"

text \<open>
  The body of \<open>lookupIPByResolverAndType\<close>. Its one call of \<open>LookupIPv4\<close>, which is
  \<open>lookupIPByResolverAndType\<close> again with type A, is passed in as \<open>lookupIPv4\<close>; with
  type A the body does not reach that call.
\<close>

definition lookupBody ::
  "lookup \<Rightarrow> resolverEnv \<Rightarrow> ctx \<Rightarrow> string \<Rightarrow> resolver option \<Rightarrow> 16 word \<Rightarrow> bool \<Rightarrow>
   netaddr list \<times> error option" where
  "lookupBody lookupIPv4 env c host r t both =
     (if t = typeAAAA \<and> DisableIPv6 env \<and> \<not> both then ([], Some ErrIPv6Disabled)
      else
        (case hostsHit env host t of
           Some ip \<Rightarrow> ([ip], None)
         | None \<Rightarrow>
             (case r of
                Some rs \<Rightarrow> viaResolver env rs c host t both
              | None \<Rightarrow>
                  (if t = typeNone \<and> DisableIPv6 env then lookupIPv4 c host
                   else viaSystem env c host t))))"

definition LookupIPv4 :: "resolverEnv \<Rightarrow> lookup" where
  "LookupIPv4 env c host =
     lookupBody (\<lambda>c h. ([], None)) env c host (DefaultResolver env) typeA False"

definition lookupIPByResolverAndType ::
  "resolverEnv \<Rightarrow> ctx \<Rightarrow> string \<Rightarrow> resolver option \<Rightarrow> 16 word \<Rightarrow> bool \<Rightarrow>
   netaddr list \<times> error option" where
  "lookupIPByResolverAndType env c host r t both =
     lookupBody (LookupIPv4 env) env c host r t both"

definition LookupIPv6 :: "resolverEnv \<Rightarrow> lookup" where
  "LookupIPv6 env c host =
     lookupIPByResolverAndType env c host (DefaultResolver env) typeAAAA False"

definition LookupIPByResolver ::
  "resolverEnv \<Rightarrow> ctx \<Rightarrow> string \<Rightarrow> resolver option \<Rightarrow> netaddr list \<times> error option" where
  "LookupIPByResolver env c host r = lookupIPByResolverAndType env c host r typeNone False"

definition LookupIP :: "resolverEnv \<Rightarrow> lookup" where
  "LookupIP env c host = LookupIPByResolver env c host (DefaultResolver env)"

text \<open>
  \<open>ips[rand.IntN(len(ips))]\<close>: \<open>rand.IntN\<close> panics on 0 and otherwise returns a number
  below its argument.
\<close>

definition pickRandom :: "nat \<Rightarrow> netaddr list \<Rightarrow> netaddr outcome" where
  "pickRandom n ips = (if length ips = 0 then Panics else Returns (ips ! (n mod length ips)))"

text \<open>The lookup \<open>resolveIPByType\<close> chooses by its \<open>switch\<close>, then the function.\<close>

definition lookupByType :: "resolverEnv \<Rightarrow> string \<Rightarrow> 16 word \<Rightarrow> netaddr list \<times> error option" where
  "lookupByType env host t =
     (if t = typeNone then LookupIP env Background host
      else if t = typeA then LookupIPv4 env Background host
      else LookupIPv6 env Background host)"

definition resolveIPByType ::
  "resolverEnv \<Rightarrow> string \<Rightarrow> 16 word \<Rightarrow> (netaddr \<times> error option) outcome" where
  "resolveIPByType env host t =
     (case lookupByType env host t of
        (ips, Some e) \<Rightarrow> Returns (ZeroAddr, Some e)
      | (ips, None) \<Rightarrow>
          (case pickRandom (randDraw env) ips of
             Panics \<Rightarrow> Panics
           | Returns ip \<Rightarrow> Returns (ip, None)))"

definition lookupProxyServerHost ::
  "resolverEnv \<Rightarrow> string \<Rightarrow> 16 word \<Rightarrow> netaddr list \<times> error option" where
  "lookupProxyServerHost env host t =
     lookupIPByResolverAndType env (Background\<lparr>ctxProxyServerHost := True\<rparr>) host
       (DefaultResolver env) t (needProxyHostIPv6 env)"

definition resolveProxyServerHostByType ::
  "resolverEnv \<Rightarrow> string \<Rightarrow> 16 word \<Rightarrow> (netaddr \<times> error option) outcome" where
  "resolveProxyServerHostByType env host t =
     (case lookupProxyServerHost env host t of
        (ips, Some e) \<Rightarrow> Returns (ZeroAddr, Some e)
      | (ips, None) \<Rightarrow>
          (case pickRandom (randDraw env) ips of
             Panics \<Rightarrow> Panics
           | Returns ip \<Rightarrow> Returns (ip, None)))"

text \<open>
  A \<open>Resolver\<close> none of whose lookups returns an empty list with a nil error. Nothing
  in package resolver asks this of a \<open>Resolver\<close>.
\<close>

definition answersNonEmpty :: "lookup \<Rightarrow> bool" where
  "answersNonEmpty f = (\<forall>c h. f c h \<noteq> ([], None))"

definition resolverNonEmpty :: "resolver option \<Rightarrow> bool" where
  "resolverNonEmpty r =
     (case r of
        None \<Rightarrow> True
      | Some rs \<Rightarrow>
          answersNonEmpty (rLookupIP rs) \<and> answersNonEmpty (rLookupIPv4 rs) \<and>
          answersNonEmpty (rLookupIPv6 rs))"

text \<open>Concrete inputs for the resolver.\<close>

definition resolver0 :: resolver where
  "resolver0 =
     \<lparr> rLookupIP = (\<lambda>c h. if h = ''example.com'' then ([IPv4 1, IPv6 2], None)
                           else ([], Some ErrIPNotFound)),
       rLookupIPv4 = (\<lambda>c h. if h = ''example.com'' then ([IPv4 1], None)
                             else ([], Some ErrIPNotFound)),
       rLookupIPv6 = (\<lambda>c h. if h = ''example.com'' then ([IPv6 2], None)
                             else ([], Some ErrIPNotFound)) \<rparr>"

definition resolverEnv0 :: resolverEnv where
  "resolverEnv0 =
     \<lparr> DefaultResolver = Some resolver0, DisableIPv6 = False, needProxyHostIPv6 = True,
       DefaultHosts = (\<lambda>h. if h = ''localhost'' then Some (IPv4 2130706433) else None),
       ParseAddr = (\<lambda>h. None),
       netLookupIP = (\<lambda>c n h. ([], Some ErrIPNotFound)),
       randDraw = 1 \<rparr>"

text \<open>
  A resolver whose lookups return no address and no error, in an environment with an
  empty hosts table whose system resolver returns no address and no error either.
\<close>

definition resolverSilent :: resolver where
  "resolverSilent =
     \<lparr> rLookupIP = (\<lambda>c h. ([], None)), rLookupIPv4 = (\<lambda>c h. ([], None)),
       rLookupIPv6 = (\<lambda>c h. ([], None)) \<rparr>"

definition resolverEnvSilent :: resolverEnv where
  "resolverEnvSilent =
     \<lparr> DefaultResolver = Some resolverSilent, DisableIPv6 = False, needProxyHostIPv6 = True,
       DefaultHosts = (\<lambda>h. None), ParseAddr = (\<lambda>h. None),
       netLookupIP = (\<lambda>c n h. ([], None)), randDraw = 0 \<rparr>"

section \<open>DHCP upstream (dns/dhcp.go)\<close>

definition IfaceTTL :: int where
  "IfaceTTL = Second * 20"

definition DHCPTTL :: int where
  "DHCPTTL = 3600 * Second"

text \<open>The zero \<open>time.Time\<close>, January 1 of year 1, in nanoseconds of Unix time.\<close>

definition zeroTime :: int where
  "zeroTime = - 62135596800 * Second"

text \<open>
  The client. \<open>ifaceAddr\<close> is a \<open>*netip.Prefix\<close>: a pointer (\<open>None\<close> is nil) into a store
  of prefixes. \<open>refreshing\<close> tells whether \<open>d.done\<close> is non-nil, that is, whether a
  resolution is in flight. \<open>clients\<close> is \<open>None\<close> for a nil slice.
\<close>

record dhcpClient =
  ifaceName :: string
  ifaceInvalidate :: int
  dnsInvalidate :: int
  ifaceAddr :: "nat option"
  refreshing :: bool
  clients :: "string list option"
  dhcpErr :: "error option"

definition newDHCPClient :: "string \<Rightarrow> dhcpClient" where
  "newDHCPClient n =
     \<lparr> ifaceName = n, ifaceInvalidate = zeroTime, dnsInvalidate = zeroTime,
       ifaceAddr = None, refreshing = False, clients = None, dhcpErr = None \<rparr>"

text \<open>
  What one call of \<open>invalidate\<close> meets: the four readings of \<open>time.Now()\<close> in the order
  taken, the result of \<open>iface.ResolveInterface\<close> followed by \<open>PickIPv4Addr\<close> (an error
  or the pointer to the interface's prefix), and the store the pointers point into.
\<close>

record invalidateEnv =
  now1 :: int
  now2 :: int
  now3 :: int
  now4 :: int
  pickIPv4Addr :: "error + nat"
  prefixAt :: "nat \<Rightarrow> string"

text \<open>
  \<open>invalidate\<close> returns \<open>(bool, error)\<close> and the client after the call. The test
  \<open>d.ifaceAddr == addr\<close> compares two pointers.
\<close>

definition invalidate :: "invalidateEnv \<Rightarrow> dhcpClient \<Rightarrow> (bool \<times> error option) \<times> dhcpClient" where
  "invalidate env d =
     (if now1 env < ifaceInvalidate d then ((False, None), d)
      else
        (let d1 = d\<lparr>ifaceInvalidate := now2 env + IfaceTTL\<rparr> in
         case pickIPv4Addr env of
           Inl e \<Rightarrow> ((False, Some e), d1)
         | Inr a \<Rightarrow>
             (if now3 env < dnsInvalidate d1 \<and> ifaceAddr d1 = Some a then ((False, None), d1)
              else
                ((\<not> refreshing d1, None),
                 d1\<lparr>dnsInvalidate := now4 env + DHCPTTL, ifaceAddr := Some a\<rparr>))))"

text \<open>
  The first part of \<open>resolve\<close>, under the lock: the client after it and whether a new
  DHCP resolution was issued (the goroutine that calls \<open>dhcp.ResolveDNSFromDHCP\<close>).
\<close>

definition resolveIssue :: "invalidateEnv \<Rightarrow> dhcpClient \<Rightarrow> bool \<times> dhcpClient" where
  "resolveIssue env d =
     (case invalidate env d of
        ((invalidated, Some e), d1) \<Rightarrow> (False, d1\<lparr>dhcpErr := Some e\<rparr>)
      | ((invalidated, None), d1) \<Rightarrow>
          (if invalidated then (True, d1\<lparr>refreshing := True\<rparr>) else (False, d1)))"

text \<open>The end of the goroutine: the channel is closed and the result is stored.\<close>

definition resolveDone :: "error + string list \<Rightarrow> dhcpClient \<Rightarrow> dhcpClient" where
  "resolveDone res d =
     (case res of
        Inl e \<Rightarrow> d\<lparr>refreshing := False, clients := None, dhcpErr := Some e\<rparr>
      | Inr ns \<Rightarrow> d\<lparr>refreshing := False, clients := Some ns, dhcpErr := None\<rparr>)"

text \<open>
  A client whose answer was cached at time 0 for the interface prefix at pointer 1, and a
  call 30 seconds later that finds the same prefix at pointer 2.
\<close>

definition dhcpCached :: dhcpClient where
  "dhcpCached =
     \<lparr> ifaceName = ''en0'', ifaceInvalidate = IfaceTTL, dnsInvalidate = DHCPTTL,
       ifaceAddr = Some 1, refreshing = False, clients = Some [''192.168.1.1:53''],
       dhcpErr = None \<rparr>"

definition dhcpLater :: "nat \<Rightarrow> invalidateEnv" where
  "dhcpLater p =
     \<lparr> now1 = 30 * Second, now2 = 30 * Second, now3 = 30 * Second, now4 = 30 * Second,
       pickIPv4Addr = Inr p,
       prefixAt = (\<lambda>q. if q = 1 \<or> q = 2 then ''192.168.1.10/24'' else []) \<rparr>"

section \<open>Parsing proxies and proxy groups (config/config.go)\<close>

text \<open>
  A YAML mapping gives a value to each key; \<open>YStr\<close> is a string value and \<open>YOther\<close>
  any value that is not a string.
\<close>

datatype yamlValue = YStr string | YOther string

type_synonym mapping = "(string \<times> yamlValue) list"

text \<open>
  Outbound adapters, each with its name: the two built-in ones, a leaf parsed from a
  proxy mapping, a group parsed from a group mapping, and a selector over providers. A
  provider has a name, a vehicle type and its proxies; a nil proxy is \<open>None\<close>. A proxy
  (\<open>adapter.NewProxy\<close>) wraps an adapter and has its name.
\<close>

datatype proxy = NewProxy adapter
  and adapter =
      Direct
    | Reject
    | Leaf string mapping
    | Group string mapping
    | Selector string "provider list"
  and provider = Provider string VehicleType "proxy option list"

fun adapterName :: "adapter \<Rightarrow> string" where
  "adapterName Direct = ''DIRECT''"
| "adapterName Reject = ''REJECT''"
| "adapterName (Leaf n m) = n"
| "adapterName (Group n m) = n"
| "adapterName (Selector n pds) = n"

fun Name :: "proxy \<Rightarrow> string" where
  "Name (NewProxy a) = adapterName a"

fun providerName :: "provider \<Rightarrow> string" where
  "providerName (Provider n v ps) = n"

fun providerVehicleType :: "provider \<Rightarrow> VehicleType" where
  "providerVehicleType (Provider n v ps) = v"

fun providerProxies :: "provider \<Rightarrow> proxy option list" where
  "providerProxies (Provider n v ps) = ps"

text \<open>
  Modelled from the spec: the constant \<open>provider.ReservedName\<close>, which is not part of
  the sources at hand; the spec names \<open>default\<close> as the reserved provider name.
\<close>

definition ReservedName :: string where
  "ReservedName = ''default''"

record RawConfig =
  Proxy :: "mapping list"
  ProxyGroup :: "mapping list"
  ProxyProvider :: "(string \<times> mapping) list"
  ForceCertVerify :: bool

text \<open>
  The functions \<open>parseProxies\<close> calls in other packages: \<open>adapter.ParseProxy\<close>,
  \<open>proxyGroupsDagSort\<close> (which returns the sorted groups, or the error of a loop),
  \<open>provider.ParseProxyProvider\<close>, the error of a provider's \<open>Initial\<close>, and
  \<open>outboundgroup.ParseProxyGroup\<close>.
\<close>

record parseEnv =
  ParseProxy :: "mapping \<Rightarrow> bool \<Rightarrow> error + adapter"
  proxyGroupsDagSort :: "mapping list \<Rightarrow> error + mapping list"
  ParseProxyProvider :: "string \<Rightarrow> mapping \<Rightarrow> bool \<Rightarrow> error + provider"
  Initial :: "provider \<Rightarrow> error option"
  ParseProxyGroup ::
    "mapping \<Rightarrow> (string \<Rightarrow> proxy option) \<Rightarrow> (string \<times> provider) list \<Rightarrow> error + adapter"

text \<open>The loop over \<open>cfg.Proxy\<close>: each proxy is parsed and stored under its name.\<close>

fun parseProxyList ::
  "parseEnv \<Rightarrow> bool \<Rightarrow> nat \<Rightarrow> mapping list \<Rightarrow> (string \<Rightarrow> proxy option) \<Rightarrow> string list \<Rightarrow>
   error + ((string \<Rightarrow> proxy option) \<times> string list)" where
  "parseProxyList env fcv idx [] proxies proxyList = Inr (proxies, proxyList)"
| "parseProxyList env fcv idx (m # ms) proxies proxyList =
     (case ParseProxy env m fcv of
        Inl e \<Rightarrow> Inl (Wrapped (''proxy '' @ Itoa idx @ '': '') e)
      | Inr a \<Rightarrow>
          (if proxies (adapterName a) \<noteq> None
           then Inl (Err (''proxy '' @ adapterName a @ '' is the duplicate name''))
           else parseProxyList env fcv (idx + 1) ms (proxies(adapterName a \<mapsto> NewProxy a))
                  (proxyList @ [adapterName a])))"

text \<open>The loop that appends the group names, in the order of the config file.\<close>

fun groupNames :: "nat \<Rightarrow> mapping list \<Rightarrow> string list \<Rightarrow> error + string list" where
  "groupNames idx [] proxyList = Inr proxyList"
| "groupNames idx (m # ms) proxyList =
     (case map_of m ''name'' of
        Some (YStr groupName) \<Rightarrow> groupNames (idx + 1) ms (proxyList @ [groupName])
      | _ \<Rightarrow> Inl (Err (''proxy group '' @ Itoa idx @ '': missing name'')))"

text \<open>The loop over \<open>cfg.ProxyProvider\<close>; the providers are kept in the order parsed.\<close>

fun parseProviders ::
  "parseEnv \<Rightarrow> bool \<Rightarrow> (string \<times> mapping) list \<Rightarrow> (string \<times> provider) list \<Rightarrow>
   error + (string \<times> provider) list" where
  "parseProviders env fcv [] providersMap = Inr providersMap"
| "parseProviders env fcv ((n, m) # rest) providersMap =
     (if n = ReservedName
      then Inl (Err (''can not defined a provider called '' @ [CHR 0x60] @ ReservedName @
                     [CHR 0x60]))
      else
        (case ParseProxyProvider env n m fcv of
           Inl e \<Rightarrow> Inl (Wrapped (''parse proxy provider '' @ n @ '' error: '') e)
         | Inr pd \<Rightarrow> parseProviders env fcv rest (providersMap @ [(n, pd)])))"

fun initialProviders :: "parseEnv \<Rightarrow> bool \<Rightarrow> (string \<times> provider) list \<Rightarrow> error option" where
  "initialProviders env onlyCompatible [] = None"
| "initialProviders env onlyCompatible ((n, pd) # rest) =
     (if onlyCompatible \<and> providerVehicleType pd \<noteq> Compatible
      then initialProviders env onlyCompatible rest
      else
        (case Initial env pd of
           Some e \<Rightarrow>
             Some (Wrapped ((if onlyCompatible then ''initial compatible provider ''
                             else ''initial proxy provider '') @ providerName pd @ '' error: '') e)
         | None \<Rightarrow> initialProviders env onlyCompatible rest))"

text \<open>The loop over the sorted groups: each group is parsed and stored under its name.\<close>

fun parseGroupList ::
  "parseEnv \<Rightarrow> (string \<times> provider) list \<Rightarrow> nat \<Rightarrow> mapping list \<Rightarrow>
   (string \<Rightarrow> proxy option) \<Rightarrow> error + (string \<Rightarrow> proxy option)" where
  "parseGroupList env providersMap idx [] proxies = Inr proxies"
| "parseGroupList env providersMap idx (m # ms) proxies =
     (case ParseProxyGroup env m proxies providersMap of
        Inl e \<Rightarrow> Inl (Wrapped (''proxy group['' @ Itoa idx @ '']: '') e)
      | Inr g \<Rightarrow>
          (if proxies (adapterName g) \<noteq> None
           then Inl (Err (''proxy group '' @ adapterName g @ '': the duplicate name''))
           else parseGroupList env providersMap (idx + 1) ms
                  (proxies(adapterName g \<mapsto> NewProxy g))))"

text \<open>
  \<open>parseProxies\<close>: the map of proxies and the providers (as a list of name and provider,
  the last entry for a name being the one the Go map holds), or the error. The deferred
  \<open>Cleanup\<close> on error is left out.
\<close>

definition parseProxies ::
  "parseEnv \<Rightarrow> RawConfig \<Rightarrow>
   error + ((string \<Rightarrow> proxy option) \<times> (string \<times> provider) list)" where
  "parseProxies env cfg =
     (let proxies0 = (Map.empty(''DIRECT'' \<mapsto> NewProxy Direct))(''REJECT'' \<mapsto> NewProxy Reject);
          proxyList0 = [''DIRECT'', ''REJECT'']
      in case parseProxyList env (ForceCertVerify cfg) 0 (Proxy cfg) proxies0 proxyList0 of
           Inl e \<Rightarrow> Inl e
         | Inr (proxies1, proxyList1) \<Rightarrow>
             (case groupNames 0 (ProxyGroup cfg) proxyList1 of
                Inl e \<Rightarrow> Inl e
              | Inr proxyList \<Rightarrow>
                  (case proxyGroupsDagSort env (ProxyGroup cfg) of
                     Inl e \<Rightarrow> Inl e
                   | Inr groupsConfig \<Rightarrow>
                       (case parseProviders env (ForceCertVerify cfg) (ProxyProvider cfg) [] of
                          Inl e \<Rightarrow> Inl e
                        | Inr providersMap \<Rightarrow>
                            (case initialProviders env False providersMap of
                               Some e \<Rightarrow> Inl e
                             | None \<Rightarrow>
                                 (case parseGroupList env providersMap 0 groupsConfig proxies1 of
                                    Inl e \<Rightarrow> Inl e
                                  | Inr proxies2 \<Rightarrow>
                                      (case initialProviders env True providersMap of
                                         Some e \<Rightarrow> Inl e
                                       | None \<Rightarrow>
                                           (let ps = map proxies2 proxyList;
                                                pd = Provider ReservedName Compatible ps;
                                                global = Selector ''GLOBAL'' [pd]
                                            in Inr (proxies2(''GLOBAL'' \<mapsto> NewProxy global),
                                                    providersMap @ [(ReservedName, pd)])))))))))"

text \<open>
  What the theorem asks of the two functions that deal with groups: sorting returns
  groups of the config, and a parsed group has the name its mapping gives.
\<close>

definition sortKeepsGroups :: "parseEnv \<Rightarrow> bool" where
  "sortKeepsGroups env =
     (\<forall>gs gs'. proxyGroupsDagSort env gs = Inr gs' \<longrightarrow> set gs' \<subseteq> set gs)"

definition groupKeepsName :: "parseEnv \<Rightarrow> bool" where
  "groupKeepsName env =
     (\<forall>m prx pds g. ParseProxyGroup env m prx pds = Inr g \<longrightarrow>
        map_of m ''name'' = Some (YStr (adapterName g)))"

text \<open>A concrete parser and config.\<close>

definition nameOf :: "mapping \<Rightarrow> string" where
  "nameOf m = (case map_of m ''name'' of Some (YStr n) \<Rightarrow> n | _ \<Rightarrow> [])"

definition parseEnv0 :: parseEnv where
  "parseEnv0 =
     \<lparr> ParseProxy = (\<lambda>m fcv. Inr (Leaf (nameOf m) m)),
       proxyGroupsDagSort = (\<lambda>gs. Inr gs),
       ParseProxyProvider = (\<lambda>n m fcv. Inr (Provider n HTTP [])),
       Initial = (\<lambda>pd. None),
       ParseProxyGroup = (\<lambda>m prx pds.
          case map_of m ''name'' of
            Some (YStr n) \<Rightarrow> Inr (Group n m)
          | _ \<Rightarrow> Inl (Err ''missing name'')) \<rparr>"

definition config0 :: RawConfig where
  "config0 =
     \<lparr> Proxy = [[(''name'', YStr ''ss1''), (''type'', YStr ''ss'')]],
       ProxyGroup = [[(''name'', YStr ''auto''), (''type'', YStr ''url-test'')]],
       ProxyProvider = [],
       ForceCertVerify = False \<rparr>"

text \<open>A config whose only proxy is named \<open>GLOBAL\<close>, and one whose group repeats a leaf's name.\<close>

definition configGlobal :: RawConfig where
  "configGlobal =
     \<lparr> Proxy = [[(''name'', YStr ''GLOBAL''), (''type'', YStr ''ss'')]],
       ProxyGroup = [],
       ProxyProvider = [],
       ForceCertVerify = False \<rparr>"

definition configDup :: RawConfig where
  "configDup =
     \<lparr> Proxy = [[(''name'', YStr ''a''), (''type'', YStr ''ss'')]],
       ProxyGroup = [[(''name'', YStr ''a''), (''type'', YStr ''select'')]],
       ProxyProvider = [],
       ForceCertVerify = False \<rparr>"

section \<open>Rule providers named in scripts (config/config.go)\<close>

subsection \<open>The regular expression of \<open>findRuleProvidersName\<close>\<close>

text \<open>
  The expression is
  \<^verbatim>\<open>ctx.rule_providers\[["'](\S+)["']\]\.match|match_provider\(["'](\S+)["']\)\<close>.
  Its matcher is written out. Strings are sequences of bytes and the expression reads
  them as UTF-8, rune by rune. \<open>\S\<close> is any rune but tab, newline, form feed, carriage
  return and space, and \<open>+\<close> is greedy; as a rune of more than one byte holds no byte
  below 128, and each byte below 128 is a rune, the capture and its closing quote are
  found byte by byte. The dot after \<open>ctx\<close> is not escaped and stands for any one rune
  but newline: \<open>runeLen\<close> is the number of bytes of the first rune of a string, as
  \<open>utf8.DecodeRuneInString\<close> finds it (a byte that starts no well-formed rune is a rune
  of its own).
\<close>

definition inRange :: "nat \<Rightarrow> nat \<Rightarrow> char \<Rightarrow> bool" where
  "inRange lo hi c = (lo \<le> of_char c \<and> of_char c \<le> hi)"

definition runeLen :: "string \<Rightarrow> nat" where
  "runeLen s =
     (case s of
        [] \<Rightarrow> 0
      | c0 # r \<Rightarrow>
          (let b0 = (of_char c0 :: nat) in
           if b0 < 0xC2 \<or> 0xF4 < b0 then 1
           else
             (let sz = (if b0 < 0xE0 then 2 else if b0 < 0xF0 then 3 else (4::nat));
                  lo = (if b0 = 0xE0 then 0xA0 else if b0 = 0xF0 then 0x90 else 0x80);
                  hi = (if b0 = 0xED then 0x9F else if b0 = 0xF4 then 0x8F else 0xBF)
              in if length s < sz then 1
                 else if \<not> inRange lo hi (r ! 0) then 1
                 else if sz = 2 then 2
                 else if \<not> inRange 0x80 0xBF (r ! 1) then 1
                 else if sz = 3 then 3
                 else if \<not> inRange 0x80 0xBF (r ! 2) then 1
                 else 4)))"

definition dquote :: char where
  "dquote = CHR 0x22"

definition squote :: char where
  "squote = CHR 0x27"

definition isQuote :: "char \<Rightarrow> bool" where
  "isQuote c = (c = dquote \<or> c = squote)"

definition isSpaceRE :: "char \<Rightarrow> bool" where
  "isSpaceRE c =
     (c = CHR 0x09 \<or> c = CHR 0x0A \<or> c = CHR 0x0C \<or> c = CHR 0x0D \<or> c = CHR 0x20)"

text \<open>Whether \<open>r\<close> goes on with a quote and then the literal \<open>lit\<close>.\<close>

definition closesWith :: "string \<Rightarrow> string \<Rightarrow> bool" where
  "closesWith lit r = (case r of [] \<Rightarrow> False | c # r' \<Rightarrow> isQuote c \<and> prefix lit r')"

text \<open>
  The greedy \<open>\S+\<close>: the longest capture first, never empty; \<open>backoff lit r k\<close> is the
  greatest length of at most \<open>k\<close> after which \<open>r\<close> closes.
\<close>

fun backoff :: "string \<Rightarrow> string \<Rightarrow> nat \<Rightarrow> nat option" where
  "backoff lit r 0 = None"
| "backoff lit r (Suc k) =
     (if closesWith lit (drop (Suc k) r) then Some (Suc k) else backoff lit r k)"

text \<open>
  \<^verbatim>\<open>["'](\S+)["']\<close> followed by \<open>lit\<close>, matched at the start of \<open>r\<close>: the capture and the
  number of characters matched.
\<close>

definition quoted :: "string \<Rightarrow> string \<Rightarrow> (string \<times> nat) option" where
  "quoted lit r =
     (case r of
        [] \<Rightarrow> None
      | q # r' \<Rightarrow>
          (if isQuote q then
             (case backoff lit r' (length (takeWhile (\<lambda>c. \<not> isSpaceRE c) r')) of
                None \<Rightarrow> None
              | Some k \<Rightarrow> Some (take k r', 1 + k + 1 + length lit))
           else None))"

definition matchIndexed :: "string \<Rightarrow> (string \<times> nat) option" where
  "matchIndexed s =
     (if prefix ''ctx'' s then
        (case drop 3 s of
           [] \<Rightarrow> None
         | c # r0 \<Rightarrow>
             (let w = runeLen (c # r0);
                  r = drop w (c # r0)
              in if c \<noteq> CHR 0x0A \<and> prefix ''rule_providers['' r then
                   map_option (\<lambda>(cap, n). (cap, 3 + w + length ''rule_providers['' + n))
                     (quoted ''].match'' (drop (length ''rule_providers['') r))
                 else None))
      else None)"

definition matchCall :: "string \<Rightarrow> (string \<times> nat) option" where
  "matchCall s =
     (if prefix ''match_provider('' s then
        map_option (\<lambda>(cap, n). (cap, length ''match_provider('' + n))
          (quoted '')'' (drop (length ''match_provider('') s))
      else None)"

text \<open>
  A match at the start of \<open>s\<close>: the first alternative before the second. The result is
  the two submatches (the empty string for the group that took no part) and the length of
  the match.
\<close>

definition matchHere :: "string \<Rightarrow> (string list \<times> nat) option" where
  "matchHere s =
     (case matchIndexed s of
        Some (cap, n) \<Rightarrow> Some ([cap, []], n)
      | None \<Rightarrow>
          (case matchCall s of
             Some (cap, n) \<Rightarrow> Some ([[], cap], n)
           | None \<Rightarrow> None))"

text \<open>
  \<open>FindAllStringSubmatch(s, -1)\<close>: the leftmost match, then the search goes on behind
  it. \<open>skip\<close> counts the characters still covered by the last match.
\<close>

fun findAllSubmatch :: "nat \<Rightarrow> string \<Rightarrow> string list list" where
  "findAllSubmatch skip [] = []"
| "findAllSubmatch (Suc k) (c # cs) = findAllSubmatch k cs"
| "findAllSubmatch 0 (c # cs) =
     (case matchHere (c # cs) of
        Some (groups, n) \<Rightarrow> groups # findAllSubmatch (n - 1) cs
      | None \<Rightarrow> findAllSubmatch 0 cs)"

text \<open>\<open>lo.Uniq\<close>: the first occurrence of each element, in order.\<close>

definition Uniq :: "string list \<Rightarrow> string list" where
  "Uniq xs = rev (remdups (rev xs))"

definition findRuleProvidersName :: "string \<Rightarrow> string list" where
  "findRuleProvidersName s =
     Uniq (concat (map (filter (\<lambda>v. v \<noteq> [])) (findAllSubmatch 0 s)))"

subsection \<open>Registration\<close>

text \<open>
  \<open>strings.ToLower\<close> and \<open>strings.ToUpper\<close>: a string of bytes below 128 has its
  letters A to Z (a to z) replaced; any other string is mapped rune by rune through the
  Unicode tables, which are parameters (\<open>unicodeLower\<close>, \<open>unicodeUpper\<close>).
\<close>

definition isASCII :: "string \<Rightarrow> bool" where
  "isASCII s = list_all (\<lambda>c. of_char c < (128::nat)) s"

definition lowerASCII :: "string \<Rightarrow> string" where
  "lowerASCII s =
     map (\<lambda>c. if (65::nat) \<le> of_char c \<and> of_char c \<le> (90::nat)
              then char_of (of_char c + (32::nat)) else c) s"

definition upperASCII :: "string \<Rightarrow> string" where
  "upperASCII s =
     map (\<lambda>c. if (97::nat) \<le> of_char c \<and> of_char c \<le> (122::nat)
              then char_of (of_char c - (32::nat)) else c) s"

text \<open>
  Matchers and rules are made by packages outside this file (\<open>S\<close> and \<open>R\<close>). A matcher
  is known by its constructor and arguments. A rule has a type, a payload, a target,
  the names of the groups appended to it (\<open>AppendGroup\<close>), a matcher (\<open>SetMatcher\<close>, for
  a rule of type \<open>Script\<close>) and, for a group, its sub-rules.
\<close>

datatype matcher = ExprMatcher string string | StarMatcher string string string

datatype ruleType = GEOSITE | Script | Group | OtherType string

datatype rule =
  Rule (rType: ruleType) (rPayload: string) (rTarget: string) (rGroups: "string list")
       (rMatcher: "matcher option") (rSubRules: "rule list")

fun appendGroup :: "string \<Rightarrow> rule \<Rightarrow> rule" where
  "appendGroup g (Rule t p tg gs m sub) =
     Rule t p tg (gs @ [g]) m (if t = Group then map (appendGroup g) sub else sub)"

text \<open>
  \<open>appendRuleGroupName\<close>: the name is appended to each rule and, below a group, to its
  sub-rules.
\<close>

definition appendRuleGroupName :: "rule list \<Rightarrow> string \<Rightarrow> rule list" where
  "appendRuleGroupName subRules groupName = map (appendGroup groupName) subRules"

definition SetMatcher :: "matcher \<Rightarrow> rule \<Rightarrow> rule" where
  "SetMatcher m r = Rule (rType r) (rPayload r) (rTarget r) (rGroups r) (Some m) (rSubRules r)"

definition NewGroup :: "string \<Rightarrow> matcher \<Rightarrow> rule list \<Rightarrow> rule" where
  "NewGroup nm m subRules = Rule Group nm [] [] (Some m) subRules"

text \<open>
  What \<open>parseRawRules\<close> and \<open>parseScript\<close> take from outside config.go:
  \<open>R.NewGEOSITE\<close>, \<open>R.ParseRule\<close>, \<open>S.NewExprMatcher\<close>, \<open>S.NewMatcher\<close>, the
  constant \<open>C.ScriptRuleGeoSiteTarget\<close>, the helper \<open>trimArr\<close> and the Unicode tables.
\<close>

record ruleEnv =
  NewGEOSITE :: "string \<Rightarrow> string \<Rightarrow> error + rule"
  ParseRule :: "string \<Rightarrow> string \<Rightarrow> string \<Rightarrow> string list \<Rightarrow> error + rule"
  NewExprMatcher :: "string \<Rightarrow> string \<Rightarrow> error + matcher"
  NewMatcher :: "string \<Rightarrow> string \<Rightarrow> string \<Rightarrow> error + matcher"
  ScriptRuleGeoSiteTarget :: string
  trimArr :: "string list \<Rightarrow> string list"
  unicodeLower :: "string \<Rightarrow> string"
  unicodeUpper :: "string \<Rightarrow> string"

definition ToLower :: "ruleEnv \<Rightarrow> string \<Rightarrow> string" where
  "ToLower env s = (if isASCII s then lowerASCII s else unicodeLower env s)"

definition ToUpper :: "ruleEnv \<Rightarrow> string \<Rightarrow> string" where
  "ToUpper env s = (if isASCII s then upperASCII s else unicodeUpper env s)"

text \<open>
  A raw rule (\<open>RawRule\<close>): a rule line, or a group with a name, an \<open>if\<close> expression, an
  engine and raw rules of its own.
\<close>

datatype RawRule =
  RawRule (rwIf: string) (rwName: string) (rwEngine: string) (rwRules: "RawRule list")
          (rwLine: string)

text \<open>
  The state \<open>parseRawRules\<close> works on: the maps \<open>ruleProviders\<close> and \<open>matchers\<close>. A
  rule that a rule line stores in \<open>ruleProviders\<close> is the very object appended to the
  rule list, so that a group name appended to the one shows in the other; \<open>shared\<close>
  lists the keys stored in this way, in the order stored.
\<close>

record pstate =
  ruleProviders :: "string \<Rightarrow> rule option"
  matchers :: "string \<Rightarrow> matcher option"
  shared :: "string list"

text \<open>The loop of \<open>parseRawRules\<close> over the names found in a group rule's \<open>if\<close>.\<close>

fun registerProviders ::
  "ruleEnv \<Rightarrow> string list \<Rightarrow> (string \<Rightarrow> rule option) \<Rightarrow> (string \<Rightarrow> rule option)" where
  "registerProviders env [] rp = rp"
| "registerProviders env (v0 # vs) rp =
     (let v = ToLower env v0 in
      if rp v \<noteq> None then registerProviders env vs rp
      else
        (case NewGEOSITE env v (ScriptRuleGeoSiteTarget env) of
           Inl e \<Rightarrow> registerProviders env vs rp
         | Inr rpd \<Rightarrow> registerProviders env vs (rp(v \<mapsto> rpd))))"

definition groupRuleProviders ::
  "ruleEnv \<Rightarrow> string \<Rightarrow> (string \<Rightarrow> rule option) \<Rightarrow> (string \<Rightarrow> rule option)" where
  "groupRuleProviders env rawIf rp = registerProviders env (findRuleProvidersName rawIf) rp"

text \<open>
  The branch of \<open>parseRawRules\<close> for a rule line. The result is the rule appended to
  \<open>rules\<close>, if any, and the state.
\<close>

definition parseLine ::
  "ruleEnv \<Rightarrow> (string \<Rightarrow> 'p option) \<Rightarrow> nat \<Rightarrow> string \<Rightarrow> pstate \<Rightarrow>
   error + (rule list \<times> pstate)" where
  "parseLine env proxies idx line st =
     (case trimArr env (Split line (CHR '','')) of
        [] \<Rightarrow> Inl (Panic ''index out of range [0] with length 0'')
      | r0 # rest \<Rightarrow>
          (let rule0 = r0 # rest;
               ruleName = ToUpper env r0;
               l0 = length rule0
           in if l0 < 2 then
                Inl (Err (''rules['' @ Itoa idx @ ''] ['' @ line @ ''] error: format invalid''))
              else
                (let rule1 = (if l0 < 4 then rule0 @ replicate (4 - l0) [] else rule0);
                     l1 = (if ruleName = ''MATCH'' then 2 else l0);
                     l = (if 3 \<le> l1 then 3 else l1);
                     payload = (if 3 \<le> l1 then rule1 ! 1 else []);
                     target = rule1 ! (l - 1);
                     params = drop l rule1
                 in if proxies target = None \<and> ruleName \<noteq> ''GEOSITE'' \<and>
                       target \<noteq> ScriptRuleGeoSiteTarget env then
                      Inl (Err (''rules['' @ Itoa idx @ ''] ['' @ line @ ''] error: proxy ['' @
                                target @ ''] not found''))
                    else
                      (let pvName = ToLower env payload;
                           foundRP = (ruleProviders st pvName \<noteq> None)
                       in if ruleName = ''GEOSITE'' \<and> target = ScriptRuleGeoSiteTarget env \<and>
                             foundRP then Inr ([], st)
                          else
                            (case ParseRule env ruleName payload target (trimArr env params) of
                               Inl e \<Rightarrow>
                                 Inl (Wrapped (''rules['' @ Itoa idx @ ''] ['' @ line @
                                               ''] error: '') e)
                             | Inr parsed \<Rightarrow>
                                 (case (if rType parsed = Script then
                                          (case matchers st payload of
                                             None \<Rightarrow>
                                               Inl (Err (''rules['' @ Itoa idx @ ''] ['' @ line @
                                                         ''] error: shortcut name ['' @ payload @
                                                         ''] not found''))
                                           | Some m \<Rightarrow> Inr (SetMatcher m parsed))
                                        else Inr parsed) of
                                    Inl e \<Rightarrow> Inl e
                                  | Inr scr \<Rightarrow>
                                      Inr ([scr],
                                           if ruleName = ''GEOSITE'' \<and> \<not> foundRP then
                                             st\<lparr>ruleProviders := (ruleProviders st)(pvName \<mapsto> scr),
                                                shared := shared st @ [pvName]\<rparr>
                                           else st)))))))"

text \<open>
  After the raw rules of a group are parsed, the group's name is appended to its rules,
  among them the rules stored in \<open>ruleProviders\<close> by rule lines of the group.
\<close>

fun appendShared ::
  "string \<Rightarrow> string list \<Rightarrow> (string \<Rightarrow> rule option) \<Rightarrow> (string \<Rightarrow> rule option)" where
  "appendShared g [] rp = rp"
| "appendShared g (k # ks) rp =
     appendShared g ks (case rp k of None \<Rightarrow> rp | Some r \<Rightarrow> rp(k \<mapsto> appendGroup g r))"

text \<open>
  \<open>parseRawRules\<close>: \<open>parseRaw\<close> is one round of its loop, \<open>parseFrom\<close> the loop from
  index \<open>idx\<close> on. The result is the rules and the state; an error ends the parse.
\<close>

fun parseRaw ::
    "ruleEnv \<Rightarrow> (string \<Rightarrow> 'p option) \<Rightarrow> nat \<Rightarrow> RawRule \<Rightarrow> pstate \<Rightarrow>
     error + (rule list \<times> pstate)"
  and parseFrom ::
    "ruleEnv \<Rightarrow> (string \<Rightarrow> 'p option) \<Rightarrow> nat \<Rightarrow> RawRule list \<Rightarrow> pstate \<Rightarrow>
     error + (rule list \<times> pstate)" where
  "parseRaw env proxies idx (RawRule cond nm eng sub line) st =
     (if line \<noteq> [] then parseLine env proxies idx line st
      else if nm = [] then Inr ([], st)
      else if matchers st (''rule:'' @ nm) \<noteq> None then
        Inl (Err (''parse rule '' @ nm @ '' failed, rule name is exist''))
      else
        (case (if eng = ''expr'' then NewExprMatcher env nm cond else NewMatcher env nm [] cond) of
           Inl e \<Rightarrow> Inl (Wrapped (''parse rule '' @ nm @ '' failed, '') e)
         | Inr groupMatcher \<Rightarrow>
             (case parseFrom env proxies 0 sub
                     (st\<lparr>matchers := (matchers st)(''rule:'' @ nm \<mapsto> groupMatcher)\<rparr>) of
                Inl e \<Rightarrow> Inl e
              | Inr (subRules, st1) \<Rightarrow>
                  (let named = appendRuleGroupName subRules nm;
                       rp1 = appendShared nm (drop (length (shared st)) (shared st1))
                               (ruleProviders st1);
                       parsed = NewGroup (nm @ '' ('' @ cond @ '')'') groupMatcher named
                   in Inr ([parsed],
                           st1\<lparr>ruleProviders := groupRuleProviders env cond rp1\<rparr>)))))"
| "parseFrom env proxies idx [] st = Inr ([], st)"
| "parseFrom env proxies idx (raw # raws) st =
     (case parseRaw env proxies idx raw st of
        Inl e \<Rightarrow> Inl e
      | Inr (rs, st1) \<Rightarrow>
          (case parseFrom env proxies (idx + 1) raws st1 of
             Inl e \<Rightarrow> Inl e
           | Inr (rs', st2) \<Rightarrow> Inr (rs @ rs', st2)))"

definition parseRawRules ::
  "ruleEnv \<Rightarrow> (string \<Rightarrow> 'p option) \<Rightarrow> RawRule list \<Rightarrow> pstate \<Rightarrow>
   error + (rule list \<times> pstate)" where
  "parseRawRules env proxies rawRules st = parseFrom env proxies 0 rawRules st"

text \<open>\<open>parseRules\<close>: the rules and the providers, from an empty map of providers.\<close>

definition parseRules ::
  "ruleEnv \<Rightarrow> (string \<Rightarrow> 'p option) \<Rightarrow> (string \<Rightarrow> matcher option) \<Rightarrow> RawRule list \<Rightarrow>
   error + (rule list \<times> (string \<Rightarrow> rule option))" where
  "parseRules env proxies ms rawRules =
     (case parseRawRules env proxies rawRules
             \<lparr> ruleProviders = Map.empty, matchers = ms, shared = [] \<rparr> of
        Inl e \<Rightarrow> Inl e
      | Inr (rules, st) \<Rightarrow> Inr (rules, ruleProviders st))"

text \<open>
  The end of \<open>parseScript\<close>: \<open>content\<close> is the main code and the code of each shortcut,
  each followed by a newline; a raw rule with the line \<open>GEOSITE,X,target\<close> is appended
  for each name \<open>X\<close> found in it.
\<close>

definition scriptContent :: "string \<Rightarrow> string list \<Rightarrow> string" where
  "scriptContent mainCode shortcuts =
     mainCode @ [CHR 0x0A] @ concat (map (\<lambda>v. v @ [CHR 0x0A]) shortcuts)"

definition geositeLine :: "ruleEnv \<Rightarrow> string \<Rightarrow> string" where
  "geositeLine env v = ''GEOSITE,'' @ v @ '','' @ ScriptRuleGeoSiteTarget env"

definition lineRule :: "string \<Rightarrow> RawRule" where
  "lineRule line = RawRule [] [] [] [] line"

definition scriptRuleLines :: "ruleEnv \<Rightarrow> string \<Rightarrow> RawRule list \<Rightarrow> RawRule list" where
  "scriptRuleLines env content rawRules =
     rawRules @ map (\<lambda>v. lineRule (geositeLine env v)) (findRuleProvidersName content)"

text \<open>
  A name whose rule line falls into the fields \<open>GEOSITE\<close>, the name and the target when
  it is split at its commas and trimmed.
\<close>

definition fieldsKept :: "ruleEnv \<Rightarrow> string \<Rightarrow> bool" where
  "fieldsKept env v =
     (trimArr env (Split (geositeLine env v) (CHR '','')) =
        [''GEOSITE'', v, ScriptRuleGeoSiteTarget env])"

text \<open>The two forms of a reference, and concrete inputs.\<close>

definition callRef :: "string \<Rightarrow> string" where
  "callRef x = ''match_provider('' @ [dquote] @ x @ [dquote] @ '')''"

definition indexRef :: "string \<Rightarrow> string" where
  "indexRef x = ''ctx.rule_providers['' @ [dquote] @ x @ [dquote] @ ''].match''"

definition ruleEnv0 :: ruleEnv where
  "ruleEnv0 =
     \<lparr> NewGEOSITE = (\<lambda>v t. if v = ''nosuch'' then Inl (Err ''list not found'')
                            else Inr (Rule GEOSITE v t [] None [])),
       ParseRule = (\<lambda>tp v t ps. if tp = ''GEOSITE'' then
                                   (if v = ''nosuch'' then Inl (Err ''list not found'')
                                    else Inr (Rule GEOSITE v t [] None []))
                                 else Inr (Rule (OtherType tp) v t [] None [])),
       NewExprMatcher = (\<lambda>n c. Inr (ExprMatcher n c)),
       NewMatcher = (\<lambda>n k c. Inr (StarMatcher n k c)),
       ScriptRuleGeoSiteTarget = ''__TARGET__'',
       trimArr = map (\<lambda>e. rev (dropWhile (\<lambda>c. c = CHR '' '') (rev (dropWhile (\<lambda>c. c = CHR '' '') e)))),
       unicodeLower = (\<lambda>s. s), unicodeUpper = (\<lambda>s. s) \<rparr>"

definition proxies0 :: "string \<Rightarrow> unit option" where
  "proxies0 = [''DIRECT'' \<mapsto> ()]"

text \<open>The text of a match of the second and of the first alternative.\<close>

definition callText :: "char \<Rightarrow> string \<Rightarrow> char \<Rightarrow> string" where
  "callText q cap q' = ''match_provider('' @ q # cap @ q' # '')''"

definition indexText :: "string \<Rightarrow> char \<Rightarrow> string \<Rightarrow> char \<Rightarrow> string" where
  "indexText u q cap q' = ''ctx'' @ u @ ''rule_providers['' @ q # cap @ q' # ''].match''"

section \<open>Control plane: bearer authentication (hub/route/server.go)\<close>

text \<open>
  The part of an HTTP request that \<open>authentication\<close> reads. \<open>header\<close> and \<open>query\<close> give
  the list of values stored under a key (\<open>http.Header\<close> and \<open>url.Values\<close>);
  \<open>isWebSocketUpgrade\<close> is the verdict of \<open>websocket.IsWebSocketUpgrade\<close>.
\<close>

record request =
  header :: "string \<Rightarrow> string list"
  query :: "string \<Rightarrow> string list"
  isWebSocketUpgrade :: bool

text \<open>\<open>Header.Get\<close> and \<open>Values.Get\<close>: the first value under the key, or the empty string.\<close>

definition Get :: "(string \<Rightarrow> string list) \<Rightarrow> string \<Rightarrow> string" where
  "Get m k = (case m k of [] \<Rightarrow> [] | v # _ \<Rightarrow> v)"

text \<open>\<open>subtle.ConstantTimeCompare\<close> returns 1 when the two byte slices are equal, else 0.\<close>

definition ConstantTimeCompare :: "string \<Rightarrow> string \<Rightarrow> int" where
  "ConstantTimeCompare x y = (if x = y then 1 else 0)"

text \<open>
  What the middleware does with a request: hand it to the wrapped handler
  (\<open>next.ServeHTTP\<close>) or answer it itself with a status code and \<open>ErrUnauthorized\<close>.
\<close>

datatype response = ServeNext | Status nat

definition StatusUnauthorized :: nat where
  "StatusUnauthorized = 401"

definition authentication :: "string \<Rightarrow> request \<Rightarrow> response" where
  "authentication serverSecret r =
     (if length serverSecret = 0 then ServeNext
      else if isWebSocketUpgrade r \<and> Get (query r) ''token'' \<noteq> [] then
        (let token = Get (query r) ''token'' in
         if ConstantTimeCompare token serverSecret \<noteq> 1 then Status StatusUnauthorized
         else ServeNext)
      else
        (let hdr = Get (header r) ''Authorization'';
             (bearer, token0, found0) = Cut hdr '' '';
             token = (if hdr = [] then Get (query r) ''token'' else token0);
             found = (if hdr = [] \<and> token \<noteq> [] then True else found0);
             hasInvalidHeader = (hdr \<noteq> [] \<and> bearer \<noteq> ''Bearer'');
             hasInvalidSecret = (\<not> found \<or> ConstantTimeCompare token serverSecret \<noteq> 1)
         in if hasInvalidHeader \<or> hasInvalidSecret then Status StatusUnauthorized
            else ServeNext))"

text \<open>The claim's reading of "carries the secret".\<close>

definition carriesBearer :: "string \<Rightarrow> request \<Rightarrow> bool" where
  "carriesBearer secret r = (Get (header r) ''Authorization'' = ''Bearer '' @ secret)"

definition carriesToken :: "string \<Rightarrow> request \<Rightarrow> bool" where
  "carriesToken secret r = (Get (query r) ''token'' = secret)"

text \<open>Concrete requests used to evaluate the middleware.\<close>

definition mkRequest :: "string list \<Rightarrow> string list \<Rightarrow> bool \<Rightarrow> request" where
  "mkRequest auth tok ws =
     \<lparr> header = (\<lambda>k. if k = ''Authorization'' then auth else []),
       query = (\<lambda>k. if k = ''token'' then tok else []),
       isWebSocketUpgrade = ws \<rparr>"

section \<open>Theorems\<close>

subsection \<open>Facts about \<open>Index\<close> and \<open>Cut\<close>\<close>

lemma Index_Some_split:
  "Index s sep = Some i \<Longrightarrow> s = take i s @ sep @ drop (i + length sep) s"
proof (induction s arbitrary: i)
  case Nil
  then show ?case by (simp split: if_splits)
next
  case (Cons x xs)
  show ?case
  proof (cases "prefix sep (x # xs)")
    case True
    with Cons.prems have "i = 0" by simp
    moreover from True obtain r where "x # xs = sep @ r" by (auto simp: prefix_def)
    ultimately show ?thesis by simp
  next
    case False
    with Cons.prems obtain j where j: "Index xs sep = Some j" "i = Suc j" by auto
    from Cons.IH [OF j(1)] j(2) show ?thesis by simp
  qed
qed

lemma Index_Some_first:
  "Index s [c] = Some i \<Longrightarrow> c \<notin> set (take i s)"
proof (induction s arbitrary: i)
  case Nil
  then show ?case by simp
next
  case (Cons x xs)
  show ?case
  proof (cases "x = c")
    case True
    with Cons.prems show ?thesis by simp
  next
    case False
    with Cons.prems obtain j where j: "Index xs [c] = Some j" "i = Suc j" by auto
    from Cons.IH [OF j(1)] j(2) False show ?thesis by auto
  qed
qed

lemma Index_first_char:
  "c \<notin> set b \<Longrightarrow> Index (b @ c # t) [c] = Some (length b)"
  by (induction b) auto

lemma Cut_Bearer:
  "Cut (''Bearer '' @ t) '' '' = (''Bearer'', t, True)"
proof -
  have "Index (''Bearer'' @ CHR '' '' # t) [CHR '' ''] = Some (length ''Bearer'')"
    by (rule Index_first_char) simp
  then show ?thesis by (simp add: Cut_def)
qed

lemma Cut_found_eq:
  assumes "Cut s '' '' = (b, t, True)"
  shows "s = b @ '' '' @ t"
proof -
  from assms obtain i where i: "Index s '' '' = Some i"
    by (auto simp: Cut_def split: option.splits)
  with assms have "b = take i s" "t = drop (i + 1) s" by (auto simp: Cut_def)
  with Index_Some_split [OF i] show ?thesis by simp
qed

lemma Cut_Bearer_iff:
  "(case Cut s '' '' of (b, t, f) \<Rightarrow> b = ''Bearer'' \<and> f \<and> t = secret) \<longleftrightarrow>
   s = ''Bearer '' @ secret"
proof
  assume h: "case Cut s '' '' of (b, t, f) \<Rightarrow> b = ''Bearer'' \<and> f \<and> t = secret"
  then have "Cut s '' '' = (''Bearer'', secret, True)" by (auto split: prod.splits)
  from Cut_found_eq [OF this] show "s = ''Bearer '' @ secret" by simp
next
  assume "s = ''Bearer '' @ secret"
  then show "case Cut s '' '' of (b, t, f) \<Rightarrow> b = ''Bearer'' \<and> f \<and> t = secret"
    by (simp only: Cut_Bearer) simp
qed

subsection \<open>Bearer authentication\<close>

lemma authentication_header_path:
  assumes "secret \<noteq> []" "\<not> (isWebSocketUpgrade r \<and> Get (query r) ''token'' \<noteq> [])"
  shows "authentication secret r = ServeNext \<longleftrightarrow>
     (if Get (header r) ''Authorization'' = [] then Get (query r) ''token'' = secret
      else Get (header r) ''Authorization'' = ''Bearer '' @ secret)"
proof (cases "Get (header r) ''Authorization'' = []")
  case True
  have "Cut [] '' '' = ([], [], False)" by (simp add: Cut_def)
  with True assms show ?thesis
    by (auto simp: authentication_def ConstantTimeCompare_def Let_def)
next
  case False
  obtain b t f where c: "Cut (Get (header r) ''Authorization'') '' '' = (b, t, f)"
    by (cases "Cut (Get (header r) ''Authorization'') '' ''") auto
  from Cut_Bearer_iff [where s = "Get (header r) ''Authorization''" and secret = secret] c
  have "(b = ''Bearer'' \<and> f \<and> t = secret) \<longleftrightarrow>
        Get (header r) ''Authorization'' = ''Bearer '' @ secret" by simp
  with False assms c show ?thesis
    by (auto simp: authentication_def ConstantTimeCompare_def Let_def)
qed

lemma authentication_cases:
  "authentication secret r =
     (if secret = [] then ServeNext
      else if isWebSocketUpgrade r \<and> Get (query r) ''token'' \<noteq> [] then
        (if Get (query r) ''token'' = secret then ServeNext else Status 401)
      else if Get (header r) ''Authorization'' = [] then
        (if Get (query r) ''token'' = secret then ServeNext else Status 401)
      else
        (if Get (header r) ''Authorization'' = ''Bearer '' @ secret then ServeNext
         else Status 401))"
proof (cases "secret = []")
  case True
  then show ?thesis by (simp add: authentication_def)
next
  case ne: False
  show ?thesis
  proof (cases "isWebSocketUpgrade r \<and> Get (query r) ''token'' \<noteq> []")
    case True
    with ne show ?thesis
      by (auto simp: authentication_def ConstantTimeCompare_def Let_def StatusUnauthorized_def)
  next
    case False
    have s: "authentication secret r = ServeNext \<or> authentication secret r = Status 401"
      by (auto simp: authentication_def Let_def StatusUnauthorized_def split: prod.splits)
    from authentication_header_path [OF ne False] s ne False show ?thesis
      by (auto split: if_splits)
  qed
qed

text \<open>
  C4, as stated, fails in both directions of its "if". A plain request that carries the
  secret as its \<open>token\<close> query parameter next to an \<open>Authorization\<close> header of another
  scheme is answered 401: the query parameter is read only when the header is empty. A
  WebSocket upgrade that carries the right \<open>Bearer\<close> header next to a wrong, non-empty
  \<open>token\<close> query parameter is answered 401 as well: for an upgrade the query parameter
  decides alone.
\<close>

theorem authentication_claim_counterexample:
  "carriesToken ''s3cret'' (mkRequest [''Basic x''] [''s3cret''] False) \<and>
   authentication ''s3cret'' (mkRequest [''Basic x''] [''s3cret''] False) = Status 401 \<and>
   carriesBearer ''s3cret'' (mkRequest [''Bearer s3cret''] [''wrong''] True) \<and>
   authentication ''s3cret'' (mkRequest [''Bearer s3cret''] [''wrong''] True) = Status 401"
  unfolding authentication_cases
  by (simp add: mkRequest_def Get_def carriesToken_def carriesBearer_def)

text \<open>
  C4 (amended): with an empty secret every request is served. With a non-empty secret,
  a WebSocket upgrade with a non-empty \<open>token\<close> query parameter is served iff that
  parameter equals the secret; any other request with an empty \<open>Authorization\<close> header is
  served iff its \<open>token\<close> query parameter equals the secret; any other request with a
  non-empty header is served iff the header is exactly \<open>Bearer\<close>, one space, the secret.
  Every request that is not served is answered with status 401.
\<close>

theorem authentication_decision:
  "authentication secret r =
     (if secret = [] then ServeNext
      else if isWebSocketUpgrade r \<and> Get (query r) ''token'' \<noteq> [] then
        (if Get (query r) ''token'' = secret then ServeNext else Status 401)
      else if Get (header r) ''Authorization'' = [] then
        (if Get (query r) ''token'' = secret then ServeNext else Status 401)
      else
        (if Get (header r) ''Authorization'' = ''Bearer '' @ secret then ServeNext
         else Status 401))"
  by (rule authentication_cases)

theorem authentication_decision_witness:
  "authentication ''s3cret'' (mkRequest [''Bearer s3cret''] [] False) = ServeNext \<and>
   authentication ''s3cret'' (mkRequest [] [''s3cret''] False) = ServeNext \<and>
   authentication ''s3cret'' (mkRequest [] [] False) = Status 401 \<and>
   authentication [] (mkRequest [] [] False) = ServeNext"
  using authentication_decision [of "''s3cret''" "mkRequest [''Bearer s3cret''] [] False"]
    authentication_decision [of "''s3cret''" "mkRequest [] [''s3cret''] False"]
    authentication_decision [of "''s3cret''" "mkRequest [] [] False"]
    authentication_decision [of "[]" "mkRequest [] [] False"]
  by (simp add: mkRequest_def Get_def)

subsection \<open>The file tree under \<open>safeWrite\<close>\<close>

lemma walkDirs_upd_longer:
  "length pre + length xs < length q \<Longrightarrow> walkDirs (fs(q \<mapsto> n)) pre xs = walkDirs fs pre xs"
proof (induction xs arbitrary: pre)
  case Nil
  then show ?case by simp
next
  case (Cons c cs)
  from Cons.prems have ne: "pre @ [c] \<noteq> q" by auto
  from Cons.prems have "length (pre @ [c]) + length cs < length q" by simp
  from Cons.IH [OF this] ne show ?case by (simp split: option.splits node.splits)
qed

lemma walkDirs_None_iff:
  "walkDirs fs pre xs = None \<longleftrightarrow>
     (\<forall>k. 0 < k \<and> k \<le> length xs \<longrightarrow> fs (pre @ take k xs) = Some DirNode)"
proof (induction xs arbitrary: pre)
  case Nil
  then show ?case by simp
next
  case (Cons c cs)
  show ?case
  proof (cases "fs (pre @ [c]) = Some DirNode")
    case True
    have "(\<forall>k. 0 < k \<and> k \<le> length (c # cs) \<longrightarrow> fs (pre @ take k (c # cs)) = Some DirNode) \<longleftrightarrow>
          (\<forall>k. 0 < k \<and> k \<le> length cs \<longrightarrow> fs ((pre @ [c]) @ take k cs) = Some DirNode)"
    proof
      assume a: "\<forall>k. 0 < k \<and> k \<le> length (c # cs) \<longrightarrow> fs (pre @ take k (c # cs)) = Some DirNode"
      show "\<forall>k. 0 < k \<and> k \<le> length cs \<longrightarrow> fs ((pre @ [c]) @ take k cs) = Some DirNode"
      proof (intro allI impI)
        fix k assume "0 < k \<and> k \<le> length cs"
        with a [rule_format, of "Suc k"] show "fs ((pre @ [c]) @ take k cs) = Some DirNode" by simp
      qed
    next
      assume a: "\<forall>k. 0 < k \<and> k \<le> length cs \<longrightarrow> fs ((pre @ [c]) @ take k cs) = Some DirNode"
      show "\<forall>k. 0 < k \<and> k \<le> length (c # cs) \<longrightarrow> fs (pre @ take k (c # cs)) = Some DirNode"
      proof (intro allI impI)
        fix k assume k: "0 < k \<and> k \<le> length (c # cs)"
        then obtain k' where k': "k = Suc k'" by (cases k) auto
        show "fs (pre @ take k (c # cs)) = Some DirNode"
        proof (cases k')
          case 0
          with k' True show ?thesis by simp
        next
          case (Suc j)
          with k k' a [rule_format, of k'] show ?thesis by simp
        qed
      qed
    qed
    with True Cons.IH [of "pre @ [c]"] show ?thesis by simp
  next
    case False
    then have "walkDirs fs pre (c # cs) \<noteq> None"
      by (auto split: option.splits node.splits)
    moreover from False have "\<not> (\<forall>k. 0 < k \<and> k \<le> length (c # cs) \<longrightarrow>
        fs (pre @ take k (c # cs)) = Some DirNode)"
      by (auto intro: exI [of _ 1])
    ultimately show ?thesis by blast
  qed
qed

lemma take_butlast_le:
  assumes "k \<le> length (butlast xs)"
  shows "take k (butlast xs) = take k xs"
proof -
  from assms have "k \<le> length xs - 1" by simp
  then have "take k (take (length xs - 1) xs) = take k xs" by (simp add: min_def)
  then show ?thesis by (simp only: butlast_conv_take)
qed

text \<open>
  A walk that succeeds on a tree reaches what the path names, and passes directories only.
\<close>

lemma doInRoot_lexical:
  "doInRoot fs dir parts = Inr cs \<Longrightarrow> doInRoot (\<lambda>q. Some DirNode) dir parts = Inr cs"
proof (induction parts arbitrary: dir)
  case Nil
  then show ?case by simp
next
  case (Cons c cs')
  show ?case
  proof (cases "c = ''..''")
    case True
    with Cons.prems have d: "dir \<noteq> []" "doInRoot fs (butlast dir) cs' = Inr cs"
      by (auto split: if_splits)
    from Cons.IH [OF d(2)] True d(1) show ?thesis by simp
  next
    case False
    show ?thesis
    proof (cases "cs' = []")
      case True
      with False Cons.prems show ?thesis by simp
    next
      case ne: False
      with False Cons.prems have "doInRoot fs (dir @ [c]) cs' = Inr cs"
        by (auto split: option.splits node.splits)
      from Cons.IH [OF this] False ne show ?thesis by simp
    qed
  qed
qed

lemma doInRoot_ancestors:
  assumes "doInRoot fs dir parts = Inr cs"
    "\<forall>k. 0 < k \<and> k \<le> length dir \<longrightarrow> fs (take k dir) = Some DirNode"
  shows "\<forall>k. 0 < k \<and> k < length cs \<longrightarrow> fs (take k cs) = Some DirNode"
  using assms
proof (induction parts arbitrary: dir)
  case Nil
  then show ?case by auto
next
  case (Cons c cs')
  show ?case
  proof (cases "c = ''..''")
    case True
    with Cons.prems(1) have d: "dir \<noteq> []" "doInRoot fs (butlast dir) cs' = Inr cs"
      by (auto split: if_splits)
    have "\<forall>k. 0 < k \<and> k \<le> length (butlast dir) \<longrightarrow> fs (take k (butlast dir)) = Some DirNode"
    proof (intro allI impI)
      fix k assume k: "0 < k \<and> k \<le> length (butlast dir)"
      then have "take k (butlast dir) = take k dir" by (simp add: take_butlast_le)
      moreover from k have "0 < k \<and> k \<le> length dir" by auto
      from Cons.prems(2) [rule_format, OF this] have "fs (take k dir) = Some DirNode" .
      ultimately show "fs (take k (butlast dir)) = Some DirNode" by simp
    qed
    from Cons.IH [OF d(2) this] show ?thesis .
  next
    case False
    show ?thesis
    proof (cases "cs' = []")
      case True
      with False Cons.prems(1) have cs: "cs = (if c = ''.'' then dir else dir @ [c])" by simp
      show ?thesis
      proof (intro allI impI)
        fix k assume k: "0 < k \<and> k < length cs"
        with cs have "0 < k \<and> k \<le> length dir" by (auto split: if_splits)
        from Cons.prems(2) [rule_format, OF this] this cs
        show "fs (take k cs) = Some DirNode" by (auto split: if_splits)
      qed
    next
      case ne: False
      with False Cons.prems(1)
      have d: "fs (dir @ [c]) = Some DirNode" "doInRoot fs (dir @ [c]) cs' = Inr cs"
        by (auto split: option.splits node.splits)
      have "\<forall>k. 0 < k \<and> k \<le> length (dir @ [c]) \<longrightarrow> fs (take k (dir @ [c])) = Some DirNode"
      proof (intro allI impI)
        fix k assume k: "0 < k \<and> k \<le> length (dir @ [c])"
        show "fs (take k (dir @ [c])) = Some DirNode"
        proof (cases "k \<le> length dir")
          case True
          with k Cons.prems(2) [rule_format, of k] show ?thesis by simp
        next
          case False
          with k have "take k (dir @ [c]) = dir @ [c]" by simp
          with d(1) show ?thesis by simp
        qed
      qed
      from Cons.IH [OF d(2) this] show ?thesis .
    qed
  qed
qed

lemma inRoot_Inr:
  assumes "inRoot fs p = Inr (cs, sep)"
  shows "inRoot (\<lambda>q. Some DirNode) p = Inr (cs, sep)" "walkDirs fs [] (butlast cs) = None"
proof -
  from assms obtain parts where
    sp: "splitPathInRoot p = Inr (parts, sep)" and w: "doInRoot fs [] parts = Inr cs"
    by (auto simp: inRoot_def split: sum.splits prod.splits)
  from doInRoot_lexical [OF w] sp show "inRoot (\<lambda>q. Some DirNode) p = Inr (cs, sep)"
    by (simp add: inRoot_def)
  from doInRoot_ancestors [OF w]
  have a: "\<forall>k. 0 < k \<and> k < length cs \<longrightarrow> fs (take k cs) = Some DirNode" by simp
  have "\<forall>k. 0 < k \<and> k \<le> length (butlast cs) \<longrightarrow> fs ([] @ take k (butlast cs)) = Some DirNode"
  proof (intro allI impI)
    fix k assume k: "0 < k \<and> k \<le> length (butlast cs)"
    then have "take k (butlast cs) = take k cs" by (simp add: take_butlast_le)
    moreover from k have "0 < k \<and> k < length cs" by auto
    from a [rule_format, OF this] have "fs (take k cs) = Some DirNode" .
    ultimately show "fs ([] @ take k (butlast cs)) = Some DirNode" by simp
  qed
  then show "walkDirs fs [] (butlast cs) = None" by (simp only: walkDirs_None_iff)
qed

lemma inPlace_refl: "inPlace fs tgt buf fs"
  by (simp add: inPlace_def)

lemma Mkdir_Inr:
  "Mkdir env fs p = Inr fs' \<Longrightarrow> \<exists>cs. fs cs = None \<and> fs' = fs(cs \<mapsto> DirNode)"
  by (auto simp: Mkdir_def split: sum.splits if_splits option.splits prod.splits)

lemma inPlace_Mkdir:
  assumes "inPlace fs tgt buf s" "Mkdir env s p = Inr s'"
  shows "inPlace fs tgt buf s'"
proof -
  from Mkdir_Inr [OF assms(2)] obtain cs where cs: "s cs = None" "s' = s(cs \<mapsto> DirNode)" by blast
  show ?thesis
    unfolding inPlace_def
  proof
    fix q
    from assms(1) have q: "s q = fs q \<or> (fs q = None \<and> s q = Some DirNode) \<or>
          (tgt = Some q \<and> (\<exists>n. s q = Some (FileNode (take n buf))))"
      by (simp add: inPlace_def)
    show "s' q = fs q \<or> (fs q = None \<and> s' q = Some DirNode) \<or>
          (tgt = Some q \<and> (\<exists>n. s' q = Some (FileNode (take n buf))))"
    proof (cases "q = cs")
      case True
      with cs q show ?thesis by auto
    next
      case False
      with cs q show ?thesis by simp
    qed
  qed
qed

lemma mkdirEach_inPlace:
  assumes "mkdirEach env h d ss = (err, h')" "\<forall>s \<in> set h. inPlace fs tgt buf s" "h \<noteq> []"
  shows "(\<forall>s \<in> set h'. inPlace fs tgt buf s) \<and> h' \<noteq> [] \<and> hd h' = hd h"
  using assms
proof (induction ss arbitrary: h d)
  case Nil
  then show ?case by simp
next
  case (Cons s ss)
  let ?d = "d @ s @ ''/''"
  show ?case
  proof (cases "Stat env (last h) ?d")
    case (Inr n)
    with Cons.prems(1) have "mkdirEach env h ?d ss = (err, h')" by (simp add: Let_def)
    from Cons.IH [OF this Cons.prems(2,3)] show ?thesis .
  next
    case (Inl e)
    show ?thesis
    proof (cases "IsNotExist e")
      case False
      with Inl Cons.prems(1) have "mkdirEach env h ?d ss = (err, h')" by (simp add: Let_def)
      from Cons.IH [OF this Cons.prems(2,3)] show ?thesis .
    next
      case True
      show ?thesis
      proof (cases "Mkdir env (last h) ?d")
        case (Inl e')
        with True \<open>Stat env (last h) ?d = Inl e\<close> Cons.prems show ?thesis by (simp add: Let_def)
      next
        case (Inr fs')
        with True \<open>Stat env (last h) ?d = Inl e\<close> Cons.prems(1)
        have m: "mkdirEach env (h @ [fs']) ?d ss = (err, h')" by (simp add: Let_def)
        from Cons.prems(2,3) have "inPlace fs tgt buf (last h)" by simp
        from inPlace_Mkdir [OF this Inr] Cons.prems(2)
        have a: "\<forall>s \<in> set (h @ [fs']). inPlace fs tgt buf s" by auto
        from Cons.IH [OF m a] Cons.prems(3) show ?thesis by simp
      qed
    qed
  qed
qed

lemma OpenFile_Inr:
  assumes "OpenFile env fs p = Inr (fd, fs1)"
  shows "inRoot (\<lambda>q. Some DirNode) p = Inr (fd, False) \<and> fd \<noteq> [] \<and>
     fs1 = fs(fd \<mapsto> FileNode []) \<and>
     walkDirs fs [] (butlast fd) = None \<and> fs fd \<noteq> Some DirNode"
proof -
  from assms have o: "inRoot fs p = Inr (fd, False)" "fd \<noteq> []"
    "fs1 = fs(fd \<mapsto> FileNode [])" "fs fd \<noteq> Some DirNode"
    by (auto simp: OpenFile_def split: sum.splits if_splits option.splits node.splits prod.splits)
  from inRoot_Inr [OF o(1)] o show ?thesis by simp
qed

lemma Write_cases:
  assumes "Write env fs fd buf = (err, fs2)"
  shows "(\<exists>n. fs2 = fs(fd \<mapsto> FileNode (take n buf))) \<and> (err = None \<longrightarrow> fs2 = fs(fd \<mapsto> FileNode buf))"
proof (cases "\<exists>n. writeFault env = Some n \<and> n < length buf")
  case True
  with assms show ?thesis by (auto simp: Write_def)
next
  case False
  with assms have f: "fs2 = fs(fd \<mapsto> FileNode buf)" by (auto simp: Write_def split: option.splits)
  then have "fs2 = fs(fd \<mapsto> FileNode (take (length buf) buf))" by simp
  with f show ?thesis by blast
qed

lemma inPlace_target_upd:
  assumes "inPlace fs (Some cs) buf s"
  shows "inPlace fs (Some cs) buf (s(cs \<mapsto> FileNode (take n buf)))"
  unfolding inPlace_def
proof
  fix q
  from assms have q: "s q = fs q \<or> (fs q = None \<and> s q = Some DirNode) \<or>
          (Some cs = Some q \<and> (\<exists>n. s q = Some (FileNode (take n buf))))"
    by (simp add: inPlace_def)
  show "(s(cs \<mapsto> FileNode (take n buf))) q = fs q \<or>
         fs q = None \<and> (s(cs \<mapsto> FileNode (take n buf))) q = Some DirNode \<or>
         Some cs = Some q \<and> (\<exists>na. (s(cs \<mapsto> FileNode (take n buf))) q = Some (FileNode (take na buf)))"
  proof (cases "q = cs")
    case True
    then show ?thesis by auto
  next
    case False
    with q show ?thesis by simp
  qed
qed

lemma makeDirs_inPlace:
  assumes "makeDirs env fs dir = (err, h)"
  shows "(\<forall>s \<in> set h. inPlace fs tgt buf s) \<and> h \<noteq> [] \<and> hd h = fs"
proof -
  have base: "\<forall>s \<in> set [fs]. inPlace fs tgt buf s" by (simp add: inPlace_refl)
  show ?thesis
  proof (cases "\<exists>e. Stat env fs dir = Inl e \<and> IsNotExist e")
    case True
    with assms have "mkdirEach env [fs] [] (Split dir (CHR ''/'')) = (err, h)"
      by (auto simp: makeDirs_def)
    from mkdirEach_inPlace [OF this base] show ?thesis by simp
  next
    case False
    with assms have "h = [fs]" by (auto simp: makeDirs_def split: sum.splits if_splits)
    with base show ?thesis by simp
  qed
qed

lemma safeWrite_cases:
  assumes "safeWrite env fs path buf = (err, h)"
  obtains (root) "h = [fs]" "err \<noteq> None"
  | (stopped) e0 where "makeDirs env fs (Dir (relPath env path)) = (e0, h)" "err \<noteq> None"
  | (written) h0 fd fs1 fs2 where
      "makeDirs env fs (Dir (relPath env path)) = (None, h0)"
      "OpenFile env (last h0) (relPath env path) = Inr (fd, fs1)"
      "Write env fs1 fd buf = (err, fs2)" "h = h0 @ [fs1, fs2]"
proof (cases "openRootErr env")
  case (Some e)
  from assms have "(Some e, [fs]) = (err, h)" by (simp add: safeWrite_def Some)
  then have "h = [fs]" "err \<noteq> None" by auto
  then show ?thesis by (rule root)
next
  case None
  obtain e0 h0 where made: "makeDirs env fs (Dir (relPath env path)) = (e0, h0)" by (meson surj_pair)
  show ?thesis
  proof (cases e0)
    case (Some e)
    with None made assms have "h = h0" "err \<noteq> None" by (auto simp: safeWrite_def Let_def)
    with made show ?thesis by (auto intro: stopped)
  next
    case eNone: None
    show ?thesis
    proof (cases "OpenFile env (last h0) (relPath env path)")
      case (Inl e)
      with eNone None made assms have "h = h0" "err \<noteq> None" by (auto simp: safeWrite_def Let_def)
      with made show ?thesis by (auto intro: stopped)
    next
      case (Inr r)
      obtain fd fs1 where r: "r = (fd, fs1)" by (cases r)
      obtain werr fs2 where w: "Write env fs1 fd buf = (werr, fs2)" by (meson surj_pair)
      from Inr r w eNone None made assms have "h = h0 @ [fs1, fs2]" "werr = err"
        by (auto simp: safeWrite_def Let_def)
      with made eNone Inr r w show ?thesis by (auto intro: written)
    qed
  qed
qed

lemma safeWrite_history:
  assumes "safeWrite env fs path buf = (err, h)"
  shows "h \<noteq> [] \<and> hd h = fs \<and> (\<forall>s \<in> set h. inPlace fs (target env path) buf s)"
  using assms
proof (cases rule: safeWrite_cases)
  case root
  then show ?thesis by (simp add: inPlace_refl)
next
  case (stopped e0)
  from makeDirs_inPlace [OF stopped(1)] show ?thesis by simp
next
  case (written h0 fd fs1 fs2)
  from makeDirs_inPlace [OF written(1)]
  have h0: "\<forall>s \<in> set h0. inPlace fs (target env path) buf s" "h0 \<noteq> []" "hd h0 = fs" by auto
  from OpenFile_Inr [OF written(2)]
  have o: "inRoot (\<lambda>q. Some DirNode) (relPath env path) = Inr (fd, False)"
    "fs1 = (last h0)(fd \<mapsto> FileNode [])" by auto
  then have t: "target env path = Some fd" by (simp add: target_def)
  from h0 have l: "inPlace fs (Some fd) buf (last h0)" by (simp add: t)
  from inPlace_target_upd [OF l, of 0] o have i1: "inPlace fs (Some fd) buf fs1" by simp
  from Write_cases [OF written(3)] obtain n where "fs2 = fs1(fd \<mapsto> FileNode (take n buf))" by blast
  with inPlace_target_upd [OF i1, of n] have i2: "inPlace fs (Some fd) buf fs2" by simp
  from written(4) h0 i1 i2 t show ?thesis by (auto simp: hd_append)
qed

lemma safeWrite_success:
  assumes "safeWrite env fs path buf = (None, h)"
  shows "\<exists>cs. target env path = Some cs \<and> cs \<noteq> [] \<and> last h cs = Some (FileNode buf) \<and>
              walkDirs (last h) [] (butlast cs) = None"
  using assms
proof (cases rule: safeWrite_cases)
  case root
  then show ?thesis by simp
next
  case (stopped e0)
  then show ?thesis by simp
next
  case (written h0 fd fs1 fs2)
  from OpenFile_Inr [OF written(2)]
  have o: "inRoot (\<lambda>q. Some DirNode) (relPath env path) = Inr (fd, False)" "fd \<noteq> []"
        "fs1 = (last h0)(fd \<mapsto> FileNode [])"
        "walkDirs (last h0) [] (butlast fd) = None" by auto
  from Write_cases [OF written(3)] have f2: "fs2 = fs1(fd \<mapsto> FileNode buf)" by simp
  from o(2) have len: "length [] + length (butlast fd) < length fd" by (cases fd rule: rev_cases) auto
  have "walkDirs fs2 [] (butlast fd) = walkDirs (last h0) [] (butlast fd)"
    unfolding f2 o(3) by (simp add: walkDirs_upd_longer [OF len])
  with o f2 written(4) show ?thesis by (simp add: target_def)
qed


subsection \<open>Paths of plain names and the directories \<open>safeWrite\<close> makes\<close>

lemma Split_no_sep: "c \<notin> set s \<Longrightarrow> Split s c = [s]"
  by (induction s) auto

lemma Split_append_sep: "c \<notin> set a \<Longrightarrow> Split (a @ c # r) c = a # Split r c"
  by (induction a) auto

lemma Split_slashed:
  "\<forall>c \<in> set cs. plain c \<Longrightarrow> Split (slashed cs @ r) (CHR ''/'') = cs @ Split r (CHR ''/'')"
proof (induction cs)
  case Nil
  then show ?case by (simp add: slashed_def)
next
  case (Cons c cs)
  then have "CHR ''/'' \<notin> set c" by (simp add: plain_def)
  from Split_append_sep [OF this, of "slashed cs @ r"] Cons show ?case
    by (simp add: slashed_def)
qed

lemma Join_snoc:
  "Join (ds @ [f]) ''/'' = (if ds = [] then f else slashed ds @ f)"
proof (induction ds)
  case Nil
  then show ?case by simp
next
  case (Cons d ds)
  then show ?case by (cases ds) (simp_all add: slashed_def)
qed

lemma Join_slashed: "ds \<noteq> [] \<Longrightarrow> slashed ds = Join ds ''/'' @ ''/''"
proof (induction ds)
  case Nil
  then show ?case by simp
next
  case (Cons d ds)
  then show ?case by (cases ds) (simp_all add: slashed_def)
qed

lemma cleanElems_plain:
  "\<forall>c \<in> set cs. plain c \<Longrightarrow> cleanElems rooted acc (cs @ r) = cleanElems rooted (rev cs @ acc) r"
  by (induction cs arbitrary: acc) (auto simp: plain_def)

lemma slashed_hd:
  assumes "cs \<noteq> []" "\<forall>c \<in> set cs. plain c"
  shows "slashed cs @ r \<noteq> []" "hd (slashed cs @ r) \<noteq> CHR ''/''"
proof -
  from assms obtain c cs' where c: "cs = c # cs'" "plain c" by (cases cs) auto
  then obtain x xs where "c = x # xs" "x \<noteq> CHR ''/''" by (cases c) (auto simp: plain_def)
  with c show "slashed cs @ r \<noteq> []" "hd (slashed cs @ r) \<noteq> CHR ''/''"
    by (simp_all add: slashed_def)
qed

lemma splitPathInRoot_plain:
  assumes "\<forall>c \<in> set (ds @ [l]). plain c"
  shows "splitPathInRoot (slashed ds @ l) = Inr (ds @ [l], False)"
    and "splitPathInRoot (slashed (ds @ [l])) = Inr (ds @ [l], True)"
proof -
  from assms have pl: "plain l" and pd: "\<forall>c \<in> set ds. plain c" by auto
  from pl have nl: "CHR ''/'' \<notin> set l" "l \<noteq> []" by (simp_all add: plain_def)
  from last_in_set [OF nl(2)] nl(1) have ll: "last l \<noteq> CHR ''/''" by auto
  from assms have ne: "filter (\<lambda>c. c \<noteq> []) (ds @ [l]) = ds @ [l]"
    by (intro filter_True) (auto simp: plain_def)
  from pd have nd: "filter (\<lambda>c. c \<noteq> ''.'') ds = ds"
    by (intro filter_True) (auto simp: plain_def)
  have h: "slashed ds @ l @ r \<noteq> [] \<and> hd (slashed ds @ l @ r) \<noteq> CHR ''/''" for r
  proof (cases ds)
    case Nil
    with nl show ?thesis by (cases l) (auto simp: slashed_def)
  next
    case (Cons d ds')
    with slashed_hd [of ds "l @ r"] pd show ?thesis by simp
  qed
  from Split_slashed [OF pd, of l] Split_no_sep [OF nl(1)]
  have s1: "Split (slashed ds @ l) (CHR ''/'') = ds @ [l]" by simp
  from nl(2) ll have t1: "\<not> trailingSep (slashed ds @ l)" by (simp add: trailingSep_def)
  from h [of "[]"] s1 ne nd t1 show "splitPathInRoot (slashed ds @ l) = Inr (ds @ [l], False)"
    by (simp add: splitPathInRoot_def)
  from Split_slashed [OF assms, of "[]"]
  have s2: "Split (slashed (ds @ [l])) (CHR ''/'') = ds @ [l, []]" by simp
  have t2: "trailingSep (slashed (ds @ [l]))" by (simp add: trailingSep_def slashed_def)
  have e: "slashed (ds @ [l]) = slashed ds @ l @ ''/''" by (simp add: slashed_def)
  from pd have "filter (\<lambda>c. c \<noteq> []) ds = ds"
    by (intro filter_True) (auto simp: plain_def)
  with nl(2) have "filter (\<lambda>c. c \<noteq> []) (ds @ [l, []]) = ds @ [l]" by simp
  with h [of "''/''"] s2 nd t2 show "splitPathInRoot (slashed (ds @ [l])) = Inr (ds @ [l], True)"
    unfolding e [symmetric] by (simp add: splitPathInRoot_def)
qed

lemma doInRoot_plain:
  assumes "\<forall>c \<in> set (xs @ [l]). plain c"
  shows "doInRoot fs dir (xs @ [l]) =
     (case walkDirs fs dir xs of Some e \<Rightarrow> Inl e | None \<Rightarrow> Inr (dir @ xs @ [l]))"
  using assms
proof (induction xs arbitrary: dir)
  case Nil
  then show ?case by (simp add: plain_def)
next
  case (Cons x xs)
  from Cons.prems have x: "x \<noteq> ''..''" and r: "\<forall>c \<in> set (xs @ [l]). plain c"
    by (auto simp: plain_def)
  from Cons.IH [OF r, of "dir @ [x]"] x show ?case
    by (simp split: option.splits node.splits)
qed

lemma inRoot_slashed:
  assumes "\<forall>c \<in> set (ds @ [l]). plain c"
  shows "inRoot fs (slashed (ds @ [l])) =
     (case walkDirs fs [] ds of Some e \<Rightarrow> Inl e | None \<Rightarrow> Inr (ds @ [l], True))"
  using splitPathInRoot_plain(2) [OF assms] doInRoot_plain [OF assms, of fs "[]"]
  by (simp add: inRoot_def split: option.splits)

lemma inRoot_file:
  assumes "\<forall>c \<in> set (ds @ [f]). plain c"
  shows "inRoot fs (Join (ds @ [f]) ''/'') =
     (case walkDirs fs [] ds of Some e \<Rightarrow> Inl e | None \<Rightarrow> Inr (ds @ [f], False))"
proof -
  have j: "Join (ds @ [f]) ''/'' = slashed ds @ f" by (simp add: Join_snoc slashed_def)
  from splitPathInRoot_plain(1) [OF assms] doInRoot_plain [OF assms, of fs "[]"]
  show ?thesis unfolding j by (simp add: inRoot_def split: option.splits)
qed

lemma takeWhile_upto_sep: "c \<notin> set a \<Longrightarrow> takeWhile (\<lambda>x. x \<noteq> c) (a @ c # r) = a"
  by (induction a) auto

lemma takeWhile_upto_end: "c \<notin> set a \<Longrightarrow> takeWhile (\<lambda>x. x \<noteq> c) (a @ []) = a"
  by (induction a) auto

lemma Dir_file:
  assumes "\<forall>c \<in> set (ds @ [f]). plain c"
  shows "Dir (Join (ds @ [f]) ''/'') = (if ds = [] then ''.'' else Join ds ''/'')"
proof -
  from assms have pf: "plain f" and pd: "\<forall>c \<in> set ds. plain c" by auto
  from pf have nf: "CHR ''/'' \<notin> set f" by (simp add: plain_def)
  have j: "Join (ds @ [f]) ''/'' = slashed ds @ f" by (simp add: Join_snoc slashed_def)
  have tw: "takeWhile (\<lambda>c. c \<noteq> CHR ''/'') (rev (slashed ds @ f)) = rev f"
  proof (cases "ds = []")
    case True
    from nf have "takeWhile (\<lambda>c. c \<noteq> CHR ''/'') (rev f @ []) = rev f"
      by (intro takeWhile_upto_end) simp
    with True show ?thesis by (simp add: slashed_def)
  next
    case False
    then obtain r where r: "rev (slashed ds) = CHR ''/'' # r"
      by (simp add: Join_slashed)
    from nf have "takeWhile (\<lambda>c. c \<noteq> CHR ''/'') (rev f @ CHR ''/'' # r) = rev f"
      by (intro takeWhile_upto_sep) simp
    with r show ?thesis by simp
  qed
  have cut: "take (length (slashed ds @ f) - length (rev f)) (slashed ds @ f) = slashed ds"
    by simp
  have "Dir (Join (ds @ [f]) ''/'') =
      Clean (take (length (slashed ds @ f) -
                   length (takeWhile (\<lambda>c. c \<noteq> CHR ''/'') (rev (slashed ds @ f))))
               (slashed ds @ f))"
    by (simp only: Dir_def j)
  then have D: "Dir (Join (ds @ [f]) ''/'') = Clean (slashed ds)"
    by (simp only: tw cut)
  show ?thesis
  proof (cases "ds = []")
    case True
    then show ?thesis unfolding D by (simp add: slashed_def Clean_def)
  next
    case False
    from slashed_hd [OF False pd, of "[]"] have h: "slashed ds \<noteq> []" "hd (slashed ds) \<noteq> CHR ''/''"
      by simp_all
    from Split_slashed [OF pd, of "[]"] have s: "Split (slashed ds) (CHR ''/'') = ds @ [[]]" by simp
    from cleanElems_plain [OF pd, of False "[]" "[[]]"] have c: "cleanElems False [] (ds @ [[]]) = ds"
      by simp
    from False obtain d ds' where d: "ds = d # ds'" by (cases ds) auto
    with pd obtain x xs where "d = x # xs" by (cases d) (auto simp: plain_def)
    with d have jn: "Join ds ''/'' \<noteq> []" by (cases ds') simp_all
    from False h s c jn show ?thesis
      unfolding D by (simp add: Clean_def Let_def)
  qed
qed


lemma slashed_snoc: "slashed (pre @ [s]) = slashed pre @ s @ ''/''"
  by (simp add: slashed_def)

text \<open>
  The loop makes every level that is missing: when no file stands in the way, it ends
  without error and every level is a directory; longer paths are untouched.
\<close>

lemma mkdirEach_makes:
  assumes "willing env" "\<forall>c \<in> set (pre @ ss). plain c" "h \<noteq> []"
    "\<forall>k. 0 < k \<and> k \<le> length pre \<longrightarrow> last h (take k pre) = Some DirNode"
    "\<forall>k. 0 < k \<and> k \<le> length ss \<longrightarrow>
        last h (pre @ take k ss) = None \<or> last h (pre @ take k ss) = Some DirNode"
  shows "\<exists>h'. mkdirEach env h (slashed pre) ss = (None, h') \<and> h' \<noteq> [] \<and>
           (\<forall>k. 0 < k \<and> k \<le> length (pre @ ss) \<longrightarrow> last h' (take k (pre @ ss)) = Some DirNode) \<and>
           (\<forall>q. length (pre @ ss) < length q \<longrightarrow> last h' q = last h q)"
  using assms
proof (induction ss arbitrary: h pre)
  case Nil
  then show ?case by simp
next
  case (Cons s ss)
  let ?cs = "pre @ [s]"
  let ?fs = "last h"
  from Cons.prems(2) have pl: "\<forall>c \<in> set ?cs. plain c" "\<forall>c \<in> set (?cs @ ss). plain c" by auto
  from Cons.prems(1) have w: "refuses env OpStat (slashed ?cs) = None"
    "refuses env OpMkdir (slashed ?cs) = None" by (simp_all add: willing_def)
  from Cons.prems(4) have wd: "walkDirs ?fs [] pre = None" by (simp add: walkDirs_None_iff)
  from inRoot_slashed [OF pl(1), of ?fs] wd
  have res: "inRoot ?fs (slashed ?cs) = Inr (?cs, True)" by simp
  from Cons.prems(5) [rule_format, of 1] have here: "?fs ?cs = None \<or> ?fs ?cs = Some DirNode" by simp
  have step: "mkdirEach env h (slashed pre) (s # ss) =
      (case Stat env ?fs (slashed ?cs) of
        Inr n \<Rightarrow> mkdirEach env h (slashed ?cs) ss
      | Inl e \<Rightarrow>
          (if IsNotExist e then
             (case Mkdir env ?fs (slashed ?cs) of
                Inl e' \<Rightarrow> (Some e', h)
              | Inr fs' \<Rightarrow> mkdirEach env (h @ [fs']) (slashed ?cs) ss)
           else mkdirEach env h (slashed ?cs) ss))"
    unfolding slashed_snoc by (simp add: Let_def)
  from here show ?case
  proof
    assume ex: "?fs ?cs = Some DirNode"
    with res w have st: "Stat env ?fs (slashed ?cs) = Inr DirNode" by (simp add: Stat_def)
    have d: "\<forall>k. 0 < k \<and> k \<le> length ?cs \<longrightarrow> last h (take k ?cs) = Some DirNode"
    proof (intro allI impI)
      fix k assume k: "0 < k \<and> k \<le> length ?cs"
      show "last h (take k ?cs) = Some DirNode"
      proof (cases "k \<le> length pre")
        case True
        with k Cons.prems(4) show ?thesis by simp
      next
        case False
        with k have "take k ?cs = ?cs" by simp
        with ex show ?thesis by simp
      qed
    qed
    have n: "\<forall>k. 0 < k \<and> k \<le> length ss \<longrightarrow>
        last h (?cs @ take k ss) = None \<or> last h (?cs @ take k ss) = Some DirNode"
    proof (intro allI impI)
      fix k assume "0 < k \<and> k \<le> length ss"
      with Cons.prems(5) [rule_format, of "Suc k"]
      show "last h (?cs @ take k ss) = None \<or> last h (?cs @ take k ss) = Some DirNode" by simp
    qed
    from Cons.IH [OF Cons.prems(1) pl(2) Cons.prems(3) d n] step st show ?thesis by simp
  next
    assume nx: "?fs ?cs = None"
    with res w have st: "Stat env ?fs (slashed ?cs) = Inl ErrNotExist" by (simp add: Stat_def)
    from nx res w have mk: "Mkdir env ?fs (slashed ?cs) = Inr (?fs(?cs \<mapsto> DirNode))"
      by (simp add: Mkdir_def)
    let ?h = "h @ [?fs(?cs \<mapsto> DirNode)]"
    have d: "\<forall>k. 0 < k \<and> k \<le> length ?cs \<longrightarrow> last ?h (take k ?cs) = Some DirNode"
    proof (intro allI impI)
      fix k assume k: "0 < k \<and> k \<le> length ?cs"
      show "last ?h (take k ?cs) = Some DirNode"
      proof (cases "k \<le> length pre")
        case True
        then have "take k ?cs = take k pre" by simp
        moreover from True have "length (take k pre) \<noteq> length ?cs" by simp
        then have "take k pre \<noteq> ?cs" by (rule contrapos_nn) (simp only:)
        moreover from k True Cons.prems(4) have "last h (take k pre) = Some DirNode" by simp
        ultimately show ?thesis by simp
      next
        case False
        with k have "take k ?cs = ?cs" by simp
        then show ?thesis by simp
      qed
    qed
    have n: "\<forall>k. 0 < k \<and> k \<le> length ss \<longrightarrow>
        last ?h (?cs @ take k ss) = None \<or> last ?h (?cs @ take k ss) = Some DirNode"
    proof (intro allI impI)
      fix k assume k: "0 < k \<and> k \<le> length ss"
      then have "take k ss \<noteq> []" by auto
      then have "?cs @ take k ss \<noteq> ?cs" by simp
      moreover from k Cons.prems(5) [rule_format, of "Suc k"]
      have "last h (?cs @ take k ss) = None \<or> last h (?cs @ take k ss) = Some DirNode" by simp
      ultimately show "last ?h (?cs @ take k ss) = None \<or> last ?h (?cs @ take k ss) = Some DirNode"
        by simp
    qed
    from Cons.IH [OF Cons.prems(1) pl(2) _ d n] obtain h' where
      h': "mkdirEach env ?h (slashed ?cs) ss = (None, h')" "h' \<noteq> []"
      "\<forall>k. 0 < k \<and> k \<le> length (?cs @ ss) \<longrightarrow> last h' (take k (?cs @ ss)) = Some DirNode"
      "\<forall>q. length (?cs @ ss) < length q \<longrightarrow> last h' q = last ?h q" by auto
    have "\<forall>q. length (pre @ s # ss) < length q \<longrightarrow> last h' q = last h q"
    proof (intro allI impI)
      fix q :: "string list" assume q: "length (pre @ s # ss) < length q"
      then have "length q \<noteq> length ?cs" by simp
      then have "q \<noteq> ?cs" by (rule contrapos_nn) (simp only:)
      moreover from h'(4) [rule_format, of q] q have "last h' q = last ?h q" by simp
      ultimately show "last h' q = last h q" by simp
    qed
    moreover from step st mk
    have "mkdirEach env h (slashed pre) (s # ss) = mkdirEach env ?h (slashed ?cs) ss"
      by (simp add: IsNotExist_def)
    moreover from h'(3) have "\<forall>k. 0 < k \<and> k \<le> length (pre @ s # ss) \<longrightarrow>
        last h' (take k (pre @ s # ss)) = Some DirNode" by simp
    ultimately show ?thesis using h'(1,2) by (intro exI [of _ h']) (simp only: simp_thms)
  qed
qed


lemma Split_Join:
  assumes "ds \<noteq> []" "\<forall>c \<in> set ds. plain c"
  shows "Split (Join ds ''/'') (CHR ''/'') = ds"
proof -
  from assms(1) obtain ds' l where d: "ds = ds' @ [l]" by (cases ds rule: rev_cases) auto
  with assms(2) have pl: "plain l" and pd: "\<forall>c \<in> set ds'. plain c" by auto
  from pl have nl: "CHR ''/'' \<notin> set l" by (simp add: plain_def)
  have j: "Join (ds' @ [l]) ''/'' = slashed ds' @ l" by (simp add: Join_snoc slashed_def)
  from Split_slashed [OF pd, of l] Split_no_sep [OF nl] show ?thesis by (simp add: d j)
qed

lemma inRoot_Join:
  assumes "ds \<noteq> []" "\<forall>c \<in> set ds. plain c"
  shows "inRoot fs (Join ds ''/'') =
     (case walkDirs fs [] (butlast ds) of Some e \<Rightarrow> Inl e | None \<Rightarrow> Inr (ds, False))"
proof -
  from assms(1) obtain ds' l where d: "ds = ds' @ [l]" by (cases ds rule: rev_cases) auto
  with assms(2) have "\<forall>c \<in> set (ds' @ [l]). plain c" by simp
  from inRoot_file [OF this, of fs] d show ?thesis by (simp split: option.splits)
qed

lemma walkDirs_no_file:
  assumes "\<forall>k. 0 < k \<and> k \<le> length xs \<longrightarrow>
     fs (pre @ take k xs) = None \<or> fs (pre @ take k xs) = Some DirNode"
  shows "walkDirs fs pre xs = None \<or> walkDirs fs pre xs = Some ErrNotExist"
  using assms
proof (induction xs arbitrary: pre)
  case Nil
  then show ?case by simp
next
  case (Cons c cs)
  from Cons.prems [rule_format, of 1]
  have here: "fs (pre @ [c]) = None \<or> fs (pre @ [c]) = Some DirNode" by simp
  then show ?case
  proof
    assume "fs (pre @ [c]) = None"
    then show ?thesis by simp
  next
    assume d: "fs (pre @ [c]) = Some DirNode"
    have "\<forall>k. 0 < k \<and> k \<le> length cs \<longrightarrow>
       fs ((pre @ [c]) @ take k cs) = None \<or> fs ((pre @ [c]) @ take k cs) = Some DirNode"
    proof (intro allI impI)
      fix k assume "0 < k \<and> k \<le> length cs"
      with Cons.prems [rule_format, of "Suc k"]
      show "fs ((pre @ [c]) @ take k cs) = None \<or> fs ((pre @ [c]) @ take k cs) = Some DirNode"
        by simp
    qed
    from Cons.IH [OF this] d show ?thesis by simp
  qed
qed

text \<open>
  The block before the open makes every missing directory of \<open>dir\<close>, provided no file
  stands where a directory is needed.
\<close>

lemma makeDirs_makes:
  assumes "willing env" "\<forall>c \<in> set ds. plain c"
    "\<forall>k. 0 < k \<and> k \<le> length ds \<longrightarrow> fs (take k ds) = None \<or> fs (take k ds) = Some DirNode"
  shows "\<exists>h. makeDirs env fs (if ds = [] then ''.'' else Join ds ''/'') = (None, h) \<and> h \<noteq> [] \<and>
           (\<forall>k. 0 < k \<and> k \<le> length ds \<longrightarrow> last h (take k ds) = Some DirNode) \<and>
           (\<forall>q. length ds < length q \<longrightarrow> last h q = fs q)"
proof (cases "ds = []")
  case True
  have "inRoot fs ''.'' = Inr ([], False)"
    by (simp add: inRoot_def splitPathInRoot_def trailingSep_def)
  with assms(1) have "Stat env fs ''.'' = Inr DirNode" by (simp add: Stat_def willing_def)
  with True show ?thesis by (simp add: makeDirs_def)
next
  case False
  note res = inRoot_Join [OF False assms(2), of fs]
  from assms(1) have w: "refuses env OpStat (Join ds ''/'') = None" by (simp add: willing_def)
  have bl: "\<forall>k. 0 < k \<and> k \<le> length (butlast ds) \<longrightarrow>
       fs ([] @ take k (butlast ds)) = None \<or> fs ([] @ take k (butlast ds)) = Some DirNode"
  proof (intro allI impI)
    fix k assume k: "0 < k \<and> k \<le> length (butlast ds)"
    then have "take k (butlast ds) = take k ds" by (simp add: take_butlast_le)
    moreover from k have "0 < k \<and> k \<le> length ds" by auto
    from assms(3) [rule_format, OF this]
    have "fs (take k ds) = None \<or> fs (take k ds) = Some DirNode" .
    ultimately
    show "fs ([] @ take k (butlast ds)) = None \<or> fs ([] @ take k (butlast ds)) = Some DirNode"
      by simp
  qed
  from assms(3) [rule_format, of "length ds"] False
  have top: "fs ds = None \<or> fs ds = Some DirNode" by simp
  from walkDirs_no_file [OF bl]
  have "Stat env fs (Join ds ''/'') = Inr DirNode \<and> walkDirs fs [] (butlast ds) = None \<and>
          fs ds = Some DirNode
        \<or> Stat env fs (Join ds ''/'') = Inl ErrNotExist"
    using top res w False by (auto simp: Stat_def)
  then show ?thesis
  proof
    assume a: "Stat env fs (Join ds ''/'') = Inr DirNode \<and> walkDirs fs [] (butlast ds) = None \<and>
          fs ds = Some DirNode"
    have "\<forall>k. 0 < k \<and> k \<le> length ds \<longrightarrow> fs (take k ds) = Some DirNode"
    proof (intro allI impI)
      fix k assume k: "0 < k \<and> k \<le> length ds"
      show "fs (take k ds) = Some DirNode"
      proof (cases "k = length ds")
        case True
        with a show ?thesis by simp
      next
        case False
        with k have k': "0 < k \<and> k \<le> length (butlast ds)" by auto
        then have "take k (butlast ds) = take k ds" by (simp add: take_butlast_le)
        with a k' walkDirs_None_iff [of fs "[]" "butlast ds"] show ?thesis by auto
      qed
    qed
    with a False show ?thesis by (simp add: makeDirs_def)
  next
    assume a: "Stat env fs (Join ds ''/'') = Inl ErrNotExist"
    have s0: "slashed [] = []" by (simp add: slashed_def)
    from assms(2) have 1: "\<forall>c \<in> set ([] @ ds). plain c" by simp
    have 3: "\<forall>k. 0 < k \<and> k \<le> length ([] :: string list) \<longrightarrow>
        last [fs] (take k []) = Some DirNode" by simp
    from assms(3) have 4: "\<forall>k. 0 < k \<and> k \<le> length ds \<longrightarrow>
        last [fs] ([] @ take k ds) = None \<or> last [fs] ([] @ take k ds) = Some DirNode" by simp
    from mkdirEach_makes [OF assms(1) 1 _ 3 4] obtain h' where
      h': "mkdirEach env [fs] [] ds = (None, h')" "h' \<noteq> []"
        "\<forall>k. 0 < k \<and> k \<le> length ds \<longrightarrow> last h' (take k ds) = Some DirNode"
        "\<forall>q. length ds < length q \<longrightarrow> last h' q = fs q"
      by (auto simp: s0)
    from a False have "makeDirs env fs (if ds = [] then ''.'' else Join ds ''/'') =
        mkdirEach env [fs] [] ds"
      by (simp add: makeDirs_def IsNotExist_def Split_Join [OF False assms(2)])
    with h' show ?thesis by simp
  qed
qed

lemma relPath_home: "relPath env (homeDir env @ CHR ''/'' # p) = p"
  by (simp add: relPath_def CutPrefix_def)

lemma OpenFile_makes:
  assumes "willing env" "\<forall>c \<in> set (ds @ [f]). plain c"
    "\<forall>k. 0 < k \<and> k \<le> length ds \<longrightarrow> s (take k ds) = Some DirNode"
    "s (ds @ [f]) \<noteq> Some DirNode"
  shows "OpenFile env s (Join (ds @ [f]) ''/'') = Inr (ds @ [f], s(ds @ [f] \<mapsto> FileNode []))"
proof -
  from assms(1) have w: "refuses env OpOpenFile (Join (ds @ [f]) ''/'') = None"
    by (simp add: willing_def)
  from assms(3) have wd: "walkDirs s [] ds = None" by (simp add: walkDirs_None_iff)
  from inRoot_file [OF assms(2), of s] wd
  have "inRoot s (Join (ds @ [f]) ''/'') = Inr (ds @ [f], False)" by simp
  with w assms(4) show ?thesis
    by (auto simp: OpenFile_def split: option.splits node.splits)
qed

text \<open>
  Progress of \<open>safeWrite\<close>: for a path below the home directory whose elements are plain
  names, in a tree where no file stands at an ancestor and the path is not a directory,
  and when the root opens, the operating system refuses no call on it and the write does
  not fail, \<open>safeWrite\<close> returns no error.
\<close>

lemma safeWrite_makes:
  assumes "openRootErr env = None" "willing env" "writeFault env = None"
    "\<forall>c \<in> set (ds @ [f]). plain c"
    "\<forall>k. 0 < k \<and> k \<le> length ds \<longrightarrow> fs (take k ds) = None \<or> fs (take k ds) = Some DirNode"
    "fs (ds @ [f]) \<noteq> Some DirNode"
  shows "fst (safeWrite env fs (homeDir env @ ''/'' @ Join (ds @ [f]) ''/'') buf) = None"
proof -
  let ?p = "Join (ds @ [f]) ''/''"
  from assms(4) have pd: "\<forall>c \<in> set ds. plain c" by simp
  from makeDirs_makes [OF assms(2) pd assms(5)] obtain h where
    h: "makeDirs env fs (if ds = [] then ''.'' else Join ds ''/'') = (None, h)" "h \<noteq> []"
      "\<forall>k. 0 < k \<and> k \<le> length ds \<longrightarrow> last h (take k ds) = Some DirNode"
      "\<forall>q. length ds < length q \<longrightarrow> last h q = fs q" by blast
  from h(4) [rule_format, of "ds @ [f]"] assms(6) have "last h (ds @ [f]) \<noteq> Some DirNode" by simp
  from OpenFile_makes [OF assms(2) assms(4) h(3) this]
  have o: "OpenFile env (last h) ?p = Inr (ds @ [f], (last h)(ds @ [f] \<mapsto> FileNode []))" .
  from h(1) have m: "makeDirs env fs (Dir ?p) = (None, h)" by (simp only: Dir_file [OF assms(4)])
  show ?thesis
    by (simp add: safeWrite_def assms(1) relPath_home Let_def m o Write_def assms(3))
qed

subsection \<open>The pull loop's update\<close>

lemma update_same:
  assumes "readResult t = Inr buf" "md5Sum buf = hash f"
  shows "update md5Sum t f w =
     (f\<lparr>updatedAt := Some (now t)\<rparr>,
      w\<lparr>calls := calls w @ [Chtimes (vehiclePath f) (now t) (now t)]\<rparr>)"
  using assms by (simp add: update_def Update_def Let_def)

lemma update_parse_error:
  assumes "readResult t = Inr buf" "md5Sum buf \<noteq> hash f" "parser f buf = Inl e"
  shows "update md5Sum t f w = (f, w)"
  using assms by (auto simp: update_def Update_def Let_def)

lemma update_write_error:
  assumes "readResult t = Inr buf" "md5Sum buf \<noteq> hash f" "parser f buf = Inr v"
    "persist t f w buf = (Some e, h)"
  shows "update md5Sum t f w = (f, w\<lparr>files := last h\<rparr>)"
  using assms by (auto simp: update_def Update_def Let_def)

lemma update_changed:
  assumes "readResult t = Inr buf" "md5Sum buf \<noteq> hash f" "parser f buf = Inr v"
    "persist t f w buf = (None, h)"
  shows "update md5Sum t f w =
     (f\<lparr>updatedAt := Some (now t), hash := md5Sum buf\<rparr>,
      w\<lparr>files := last h,
        calls := calls w @ (if onUpdate f then [OnUpdate (Some v)] else [])\<rparr>)"
  using assms by (auto simp: update_def Update_def Let_def)

lemma persist_stored:
  assumes "persist t f w buf = (None, h)" "vehicleType f \<noteq> File"
  shows "\<exists>cs. target (writeEnv t) (vehiclePath f) = Some cs \<and> last h cs = Some (FileNode buf)"
proof -
  from assms have "safeWrite (writeEnv t) (files w) (vehiclePath f) buf = (None, h)"
    by (simp add: persist_def)
  from safeWrite_success [OF this] show ?thesis by blast
qed

lemma safeWrite_eval0:
  "fst (safeWrite env0 tree0 ''/home/u/providers/p.yaml'' b) = None"
  "map (\<lambda>s. s [''providers'', ''p.yaml'']) (snd (safeWrite env0 tree0 ''/home/u/providers/p.yaml'' b))
     = [Some (FileNode ''old''), Some (FileNode []), Some (FileNode b)]"
  by (simp_all add: safeWrite_def makeDirs_def relPath_def env0_def tree0_def CutPrefix_def Dir_def
      Clean_def Stat_def inRoot_def splitPathInRoot_def OpenFile_def Write_def trailingSep_def
      Let_def)

text \<open>
  C1, as stated, fails where the fetched bytes differ from the prior payload and the
  parser rejects them: nothing is stored and \<open>onUpdate\<close> is not called, although the
  callback is set.
\<close>

theorem update_claim_counterexample:
  "readResult (tick0 ''bad'') = Inr ''bad'' \<and> digest0 ''bad'' \<noteq> hash fetcher0 \<and>
   onUpdate fetcher0 \<and>
   update digest0 (tick0 ''bad'') fetcher0 world0 = (fetcher0, world0)"
proof -
  have r: "readResult (tick0 ''bad'') = Inr ''bad''" by (simp add: tick0_def)
  have d: "digest0 ''bad'' \<noteq> hash fetcher0"
    by (simp add: digest0_def fetcher0_def newFetcher_def Let_def)
  have p: "parser fetcher0 ''bad'' = Inl (Err ''parse failure'')"
    by (simp add: fetcher0_def newFetcher_def Let_def parser0_def)
  have o: "onUpdate fetcher0" by (simp add: fetcher0_def newFetcher_def Let_def)
  from update_parse_error [where md5Sum = digest0 and f = fetcher0, OF r d p] r d o show ?thesis by simp
qed

text \<open>
  C1 (amended): for every tick whose read succeeds: if the fetched bytes have the hash
  of the prior payload, the fetcher sets its timestamp, touches the file's times and does
  nothing else (no \<open>onUpdate\<close>). If the hash differs, the bytes are parsed; when the parser
  fails, fetcher and world stay as they were; when the write fails, the fetcher stays as
  it was and nothing is called; when both succeed, the bytes are stored under the
  vehicle's path (for a vehicle other than a file vehicle), the timestamp and the hash are
  set, and \<open>onUpdate\<close>, when set, is called exactly once with the parsed value.
\<close>

theorem update_tick:
  assumes "readResult t = Inr buf"
  shows
    "(md5Sum buf = hash f \<longrightarrow>
        update md5Sum t f w =
          (f\<lparr>updatedAt := Some (now t)\<rparr>,
           w\<lparr>calls := calls w @ [Chtimes (vehiclePath f) (now t) (now t)]\<rparr>)) \<and>
     (md5Sum buf \<noteq> hash f \<longrightarrow>
        (case parser f buf of
           Inl e \<Rightarrow> update md5Sum t f w = (f, w)
         | Inr v \<Rightarrow>
             (case persist t f w buf of
                (Some e, h) \<Rightarrow> update md5Sum t f w = (f, w\<lparr>files := last h\<rparr>)
              | (None, h) \<Rightarrow>
                  update md5Sum t f w =
                    (f\<lparr>updatedAt := Some (now t), hash := md5Sum buf\<rparr>,
                     w\<lparr>files := last h,
                       calls := calls w @ (if onUpdate f then [OnUpdate (Some v)] else [])\<rparr>) \<and>
                  (vehicleType f \<noteq> File \<longrightarrow>
                     (\<exists>cs. target (writeEnv t) (vehiclePath f) = Some cs \<and>
                           last h cs = Some (FileNode buf))))))"
proof (intro conjI impI)
  assume "md5Sum buf = hash f"
  from update_same [where md5Sum = md5Sum and f = f, OF assms this] show "update md5Sum t f w =
          (f\<lparr>updatedAt := Some (now t)\<rparr>,
           w\<lparr>calls := calls w @ [Chtimes (vehiclePath f) (now t) (now t)]\<rparr>)" .
next
  assume ne: "md5Sum buf \<noteq> hash f"
  show "case parser f buf of
           Inl e \<Rightarrow> update md5Sum t f w = (f, w)
         | Inr v \<Rightarrow>
             (case persist t f w buf of
                (Some e, h) \<Rightarrow> update md5Sum t f w = (f, w\<lparr>files := last h\<rparr>)
              | (None, h) \<Rightarrow>
                  update md5Sum t f w =
                    (f\<lparr>updatedAt := Some (now t), hash := md5Sum buf\<rparr>,
                     w\<lparr>files := last h,
                       calls := calls w @ (if onUpdate f then [OnUpdate (Some v)] else [])\<rparr>) \<and>
                  (vehicleType f \<noteq> File \<longrightarrow>
                     (\<exists>cs. target (writeEnv t) (vehiclePath f) = Some cs \<and>
                           last h cs = Some (FileNode buf))))"
  proof (cases "parser f buf")
    case (Inl e)
    from update_parse_error [where md5Sum = md5Sum and f = f, OF assms ne Inl] Inl show ?thesis by simp
  next
    case (Inr v)
    obtain werr h where p: "persist t f w buf = (werr, h)" by (meson surj_pair)
    show ?thesis
    proof (cases werr)
      case (Some e)
      from update_write_error [where md5Sum = md5Sum and f = f, OF assms ne Inr p [unfolded Some]] Inr p Some
      show ?thesis by simp
    next
      case None
      from update_changed [where md5Sum = md5Sum and f = f, OF assms ne Inr p [unfolded None]]
        persist_stored [OF p [unfolded None]] Inr p None
      show ?thesis by simp
    qed
  qed
qed

theorem update_tick_witness:
  "update digest0 (tick0 ''new'') fetcher0 world0 =
     (fetcher0\<lparr>updatedAt := Some 1000, hash := digest0 ''new''\<rparr>,
      world0\<lparr>files := last (snd (persist (tick0 ''new'') fetcher0 world0 ''new'')),
             calls := [OnUpdate (Some ''new'')]\<rparr>) \<and>
   update digest0 (tick0 ''new'') (fetcher0\<lparr>hash := digest0 ''new''\<rparr>) world0 =
     (fetcher0\<lparr>hash := digest0 ''new'', updatedAt := Some 1000\<rparr>,
      world0\<lparr>calls := [Chtimes ''/home/u/providers/p.yaml'' 1000 1000]\<rparr>)"
proof -
  have r: "readResult (tick0 ''new'') = Inr ''new''" by (simp add: tick0_def)
  have p: "persist (tick0 ''new'') fetcher0 world0 ''new'' =
     (None, snd (persist (tick0 ''new'') fetcher0 world0 ''new''))"
    using safeWrite_eval0(1) [of "''new''"]
    by (simp add: persist_def fetcher0_def newFetcher_def Let_def tick0_def world0_def prod_eq_iff)
  have d: "digest0 ''new'' \<noteq> hash fetcher0"
    by (simp add: digest0_def fetcher0_def newFetcher_def Let_def)
  have pr: "parser fetcher0 ''new'' = Inr ''new''"
    by (simp add: fetcher0_def newFetcher_def Let_def parser0_def)
  have o: "onUpdate fetcher0" "vehiclePath fetcher0 = ''/home/u/providers/p.yaml''"
    by (simp_all add: fetcher0_def newFetcher_def Let_def)
  have c: "calls world0 = []" by (simp add: world0_def)
  have n: "now (tick0 ''new'') = 1000" by (simp add: tick0_def)
  from update_tick [where md5Sum = digest0 and f = fetcher0 and w = world0, OF r] d pr p o c n
  have 1: "update digest0 (tick0 ''new'') fetcher0 world0 =
     (fetcher0\<lparr>updatedAt := Some 1000, hash := digest0 ''new''\<rparr>,
      world0\<lparr>files := last (snd (persist (tick0 ''new'') fetcher0 world0 ''new'')),
             calls := [OnUpdate (Some ''new'')]\<rparr>)"
    by (simp split: prod.splits)
  from update_tick [where md5Sum = digest0 and f = "fetcher0\<lparr>hash := digest0 ''new''\<rparr>" and w = world0, OF r] o c n
  have 2: "update digest0 (tick0 ''new'') (fetcher0\<lparr>hash := digest0 ''new''\<rparr>) world0 =
     (fetcher0\<lparr>hash := digest0 ''new'', updatedAt := Some 1000\<rparr>,
      world0\<lparr>calls := [Chtimes ''/home/u/providers/p.yaml'' 1000 1000]\<rparr>)"
    by simp
  from 1 2 show ?thesis by simp
qed

subsection \<open>\<open>safeWrite\<close>\<close>

text \<open>
  C3, as stated, fails: \<open>safeWrite\<close> uses no temporary file and no rename. It opens the
  provider file itself, which cuts it to length zero, and then writes into it. Writing
  \<open>new\<close> over a file that holds \<open>old\<close>, the file is observable as empty in between.
\<close>

theorem safeWrite_claim_counterexample:
  "fst (safeWrite env0 tree0 ''/home/u/providers/p.yaml'' ''new'') = None \<and>
   map (\<lambda>s. s [''providers'', ''p.yaml''])
     (snd (safeWrite env0 tree0 ''/home/u/providers/p.yaml'' ''new'')) =
   [Some (FileNode ''old''), Some (FileNode []), Some (FileNode ''new'')]"
  by (simp add: safeWrite_eval0)

text \<open>
  C3 (amended): \<open>safeWrite\<close> starts from the tree it finds and changes it in place: every
  tree of its history differs from the first only by directories that were missing and,
  at the file it opens, by a content that is an initial part of the bytes (empty after the
  open). No other file is made and none is renamed. When it returns no error, the opened
  file holds exactly the bytes and each of its ancestors is a directory. It does return
  no error when the root opens, the operating system refuses none of the calls on it, the
  write does not fail, the path is the home directory followed by plain names, no file
  stands at an ancestor and the path is not a directory: the missing directories are then
  made on the way.
\<close>

theorem safeWrite_in_place:
  assumes "safeWrite env fs path buf = (err, h)"
  shows "h \<noteq> [] \<and> hd h = fs \<and> (\<forall>s \<in> set h. inPlace fs (target env path) buf s) \<and>
         (err = None \<longrightarrow>
            (\<exists>cs. target env path = Some cs \<and> cs \<noteq> [] \<and>
                  last h cs = Some (FileNode buf) \<and>
                  walkDirs (last h) [] (butlast cs) = None)) \<and>
         (openRootErr env = None \<and> willing env \<and> writeFault env = None \<and>
          path = homeDir env @ ''/'' @ Join (ds @ [f]) ''/'' \<and>
          (\<forall>c \<in> set (ds @ [f]). plain c) \<and>
          (\<forall>k. 0 < k \<and> k \<le> length ds \<longrightarrow>
             fs (take k ds) = None \<or> fs (take k ds) = Some DirNode) \<and>
          fs (ds @ [f]) \<noteq> Some DirNode \<longrightarrow> err = None)"
proof -
  from safeWrite_history [OF assms]
  have 1: "h \<noteq> [] \<and> hd h = fs \<and> (\<forall>s \<in> set h. inPlace fs (target env path) buf s)" .
  have 2: "err = None \<longrightarrow>
            (\<exists>cs. target env path = Some cs \<and> cs \<noteq> [] \<and>
                  last h cs = Some (FileNode buf) \<and>
                  walkDirs (last h) [] (butlast cs) = None)"
  proof
    assume "err = None"
    with assms have "safeWrite env fs path buf = (None, h)" by simp
    from safeWrite_success [OF this] show "\<exists>cs. target env path = Some cs \<and> cs \<noteq> [] \<and>
                  last h cs = Some (FileNode buf) \<and>
                  walkDirs (last h) [] (butlast cs) = None" .
  qed
  have 3: "openRootErr env = None \<and> willing env \<and> writeFault env = None \<and>
          path = homeDir env @ ''/'' @ Join (ds @ [f]) ''/'' \<and>
          (\<forall>c \<in> set (ds @ [f]). plain c) \<and>
          (\<forall>k. 0 < k \<and> k \<le> length ds \<longrightarrow>
             fs (take k ds) = None \<or> fs (take k ds) = Some DirNode) \<and>
          fs (ds @ [f]) \<noteq> Some DirNode \<longrightarrow> err = None"
  proof
    assume a: "openRootErr env = None \<and> willing env \<and> writeFault env = None \<and>
          path = homeDir env @ ''/'' @ Join (ds @ [f]) ''/'' \<and>
          (\<forall>c \<in> set (ds @ [f]). plain c) \<and>
          (\<forall>k. 0 < k \<and> k \<le> length ds \<longrightarrow>
             fs (take k ds) = None \<or> fs (take k ds) = Some DirNode) \<and>
          fs (ds @ [f]) \<noteq> Some DirNode"
    then have p: "path = homeDir env @ ''/'' @ Join (ds @ [f]) ''/''" by (elim conjE)
    from a have "fst (safeWrite env fs (homeDir env @ ''/'' @ Join (ds @ [f]) ''/'') buf) = None"
      by (intro safeWrite_makes) (elim conjE, assumption)+
    with assms show "err = None" unfolding p by simp
  qed
  from 1 2 3 show ?thesis by (intro conjI) (elim conjE, assumption)+
qed

lemma safeWrite_eval1:
  "fst (safeWrite env0 Map.empty ''/home/u/x/y/p.yaml'' ''new'') = None"
  "map (\<lambda>s. (s [''x''], s [''x'', ''y''], s [''x'', ''y'', ''p.yaml'']))
     (snd (safeWrite env0 Map.empty ''/home/u/x/y/p.yaml'' ''new'')) =
   [(None, None, None), (Some DirNode, None, None), (Some DirNode, Some DirNode, None),
    (Some DirNode, Some DirNode, Some (FileNode [])),
    (Some DirNode, Some DirNode, Some (FileNode ''new''))]"
  by (simp_all add: safeWrite_def makeDirs_def relPath_def env0_def CutPrefix_def Dir_def
      Clean_def Stat_def Mkdir_def inRoot_def splitPathInRoot_def OpenFile_def Write_def
      trailingSep_def Let_def IsNotExist_def)

text \<open>
  An element is opened before a \<open>..\<close> steps back from it: below a directory that is
  missing the open fails, although the path names the file that is there; and a name of
  300 bytes that the operating system refuses makes \<open>safeWrite\<close> fail.
\<close>

lemma safeWrite_eval2:
  "safeWrite env0 tree0 ''/home/u/missing/../providers/p.yaml'' ''new'' =
     (Some ErrNotExist, [tree0])"
  "target env0 ''/home/u/missing/../providers/p.yaml'' = Some [''providers'', ''p.yaml'']"
  "safeWrite (env0\<lparr>refuses := (\<lambda>op p. if 255 < length p then Some (Err ''file name too long'')
                                        else None)\<rparr>)
     Map.empty (''/home/u/'' @ replicate 300 CHR ''a'') ''new'' =
     (Some (Err ''file name too long''), [Map.empty])"
  by (simp_all add: safeWrite_def makeDirs_def relPath_def env0_def tree0_def CutPrefix_def
      Dir_def Clean_def Stat_def inRoot_def splitPathInRoot_def OpenFile_def Write_def
      trailingSep_def Let_def target_def IsNotExist_def)

theorem safeWrite_in_place_witness:
  "fst (safeWrite env0 Map.empty ''/home/u/x/y/p.yaml'' ''new'') = None \<and>
   hd (snd (safeWrite env0 Map.empty ''/home/u/x/y/p.yaml'' ''new'')) = Map.empty \<and>
   last (snd (safeWrite env0 Map.empty ''/home/u/x/y/p.yaml'' ''new''))
     [''x'', ''y'', ''p.yaml''] = Some (FileNode ''new'') \<and>
   last (snd (safeWrite env0 Map.empty ''/home/u/x/y/p.yaml'' ''new''))
     [''x'', ''y''] = Some DirNode"
proof -
  have e: "safeWrite env0 Map.empty ''/home/u/x/y/p.yaml'' ''new'' =
     (fst (safeWrite env0 Map.empty ''/home/u/x/y/p.yaml'' ''new''),
      snd (safeWrite env0 Map.empty ''/home/u/x/y/p.yaml'' ''new''))"
    by simp
  note T = safeWrite_in_place [OF e, where ds = "[''x'', ''y'']" and f = "''p.yaml''"]
  have t: "target env0 ''/home/u/x/y/p.yaml'' = Some [''x'', ''y'', ''p.yaml'']"
    by (simp add: target_def relPath_def env0_def CutPrefix_def inRoot_def splitPathInRoot_def
        trailingSep_def)
  have hyp: "openRootErr env0 = None \<and> willing env0 \<and> writeFault env0 = None \<and>
      ''/home/u/x/y/p.yaml'' = homeDir env0 @ ''/'' @ Join ([''x'', ''y''] @ [''p.yaml'']) ''/'' \<and>
      (\<forall>c \<in> set ([''x'', ''y''] @ [''p.yaml'']). plain c) \<and>
      (\<forall>k. 0 < k \<and> k \<le> length [''x'', ''y''] \<longrightarrow>
         Map.empty (take k [''x'', ''y'']) = None \<or>
         Map.empty (take k [''x'', ''y'']) = Some DirNode) \<and>
      Map.empty ([''x'', ''y''] @ [''p.yaml'']) \<noteq> Some DirNode"
    by (simp add: env0_def plain_def willing_def)
  from T hyp have n: "fst (safeWrite env0 Map.empty ''/home/u/x/y/p.yaml'' ''new'') = None"
    by blast
  from T n t
  have "hd (snd (safeWrite env0 Map.empty ''/home/u/x/y/p.yaml'' ''new'')) = Map.empty"
    "last (snd (safeWrite env0 Map.empty ''/home/u/x/y/p.yaml'' ''new''))
       [''x'', ''y'', ''p.yaml''] = Some (FileNode ''new'')"
    "walkDirs (last (snd (safeWrite env0 Map.empty ''/home/u/x/y/p.yaml'' ''new''))) []
       [''x'', ''y''] = None"
    by simp_all
  moreover from this(3)
  have "last (snd (safeWrite env0 Map.empty ''/home/u/x/y/p.yaml'' ''new'')) [''x'', ''y''] = Some DirNode"
    by (simp split: option.splits node.splits)
  ultimately show ?thesis using n by simp
qed

subsection \<open>\<open>Destroy\<close>\<close>

lemma newFetcher_doneCh: "doneCh (newFetcher nm i vt p prs u) = makeChan 1"
  by (simp add: newFetcher_def Let_def)

lemma newFetcher_ticker: "ticker (newFetcher nm i vt p prs u) = (if 0 < i then Some True else None)"
  by (simp add: newFetcher_def Let_def)

lemma newFetcher_tmUpdate: "\<not> tmUpdate (newFetcher nm i vt p prs u)"
  by (simp add: newFetcher_def Let_def)

text \<open>A send on a channel without room blocks; the \<open>select\<close> with a default case never does.\<close>

lemma send_blocks_iff: "send c = Blocks \<longleftrightarrow> chanCap c \<le> chanLen c"
  by (simp add: send_def)

lemma selectSendDefault_proceeds:
  "selectSendDefault c =
     Proceeds (if chanLen c < chanCap c then c\<lparr>chanLen := chanLen c + 1\<rparr> else c)"
  by (simp add: selectSendDefault_def send_def)

lemma Destroy_effect:
  "Destroy f =
     Proceeds (None,
       f\<lparr>tmUpdate := False,
         doneCh := (if ticker f \<noteq> None \<and> chanLen (doneCh f) < chanCap (doneCh f)
                    then (doneCh f)\<lparr>chanLen := chanLen (doneCh f) + 1\<rparr> else doneCh f)\<rparr>)"
  by (cases "tmUpdate f") (simp_all add: Destroy_def Let_def selectSendDefault_proceeds)

lemma fetcher0_fields:
  "doneCh fetcher0 = \<lparr> chanCap = 1, chanLen = 0 \<rparr>" "ticker fetcher0 = Some True"
  "\<not> tmUpdate fetcher0"
  unfolding fetcher0_def
  by (simp_all add: newFetcher_doneCh newFetcher_ticker newFetcher_tmUpdate makeChan_def)

text \<open>
  C8, as stated, fails: a call of \<open>Destroy\<close> while no pull loop runs does change the
  fetcher. On the fetcher \<open>newFetcher\<close> has just made, with a ticker and no loop started,
  the call leaves a signal in the \<open>done\<close> channel. And once a loop has taken that signal
  and returned, a further call leaves a signal again.
\<close>

theorem Destroy_claim_counterexample:
  "chanLen (doneCh fetcher0) = 0 \<and>
   Destroy fetcher0 = Proceeds (None, fetcher0\<lparr>doneCh := \<lparr> chanCap = 1, chanLen = 1 \<rparr>\<rparr>) \<and>
   pullLoopSteps digest0 [DoneC] (fetcher0\<lparr>doneCh := \<lparr> chanCap = 1, chanLen = 1 \<rparr>\<rparr>) world0 =
     (True, fetcher0\<lparr>doneCh := \<lparr> chanCap = 1, chanLen = 0 \<rparr>, ticker := Some False\<rparr>, world0) \<and>
   Destroy (fetcher0\<lparr>doneCh := \<lparr> chanCap = 1, chanLen = 0 \<rparr>, ticker := Some False\<rparr>) =
     Proceeds (None, fetcher0\<lparr>doneCh := \<lparr> chanCap = 1, chanLen = 1 \<rparr>, ticker := Some False\<rparr>)"
  by (simp add: Destroy_effect fetcher0_fields tryRecv_def)

text \<open>
  C8 (amended): \<open>Destroy\<close> never blocks and always returns nil. It drops a pending
  delayed update, which then no longer runs, and, when the fetcher has a ticker and the
  \<open>done\<close> channel has room, it leaves one signal in the channel; nothing else changes.
  With the one-slot channel of \<open>newFetcher\<close>, a second call right after the first changes
  nothing. The signal of a fetcher with a ticker waits in the channel, also when no loop
  runs, and a pull loop stops and returns when it takes it.
\<close>

theorem Destroy_signals_once:
  "Destroy f =
     Proceeds (None,
       f\<lparr>tmUpdate := False,
         doneCh := (if ticker f \<noteq> None \<and> chanLen (doneCh f) < chanCap (doneCh f)
                    then (doneCh f)\<lparr>chanLen := chanLen (doneCh f) + 1\<rparr> else doneCh f)\<rparr>) \<and>
   (\<forall>f'. Destroy f = Proceeds (None, f') \<longrightarrow>
      delayedUpdate md5Sum t f' w = (f', w) \<and>
      (chanCap (doneCh f) = 1 \<longrightarrow> Destroy f' = Proceeds (None, f')) \<and>
      (0 < chanCap (doneCh f) \<and> ticker f \<noteq> None \<longrightarrow>
         0 < chanLen (doneCh f') \<and>
         pullLoopSteps md5Sum (DoneC # es) f' w =
           (True,
            f'\<lparr>doneCh := (doneCh f')\<lparr>chanLen := chanLen (doneCh f') - 1\<rparr>,
              ticker := Some False\<rparr>, w)))"
proof -
  let ?f = "f\<lparr>tmUpdate := False,
         doneCh := (if ticker f \<noteq> None \<and> chanLen (doneCh f) < chanCap (doneCh f)
                    then (doneCh f)\<lparr>chanLen := chanLen (doneCh f) + 1\<rparr> else doneCh f)\<rparr>"
  have 1: "Destroy f = Proceeds (None, ?f)" by (rule Destroy_effect)
  have 2: "delayedUpdate md5Sum t ?f w = (?f, w)" by (simp add: delayedUpdate_def)
  have 3: "Destroy ?f = Proceeds (None, ?f)" if "chanCap (doneCh f) = 1"
    using that by (simp add: Destroy_effect)
  have 4: "0 < chanLen (doneCh ?f)" if "0 < chanCap (doneCh f)" "ticker f \<noteq> None"
    using that by auto
  have 5: "pullLoopSteps md5Sum (DoneC # es) ?f w =
      (True,
       ?f\<lparr>doneCh := (doneCh ?f)\<lparr>chanLen := chanLen (doneCh ?f) - 1\<rparr>,
         ticker := Some False\<rparr>, w)"
    if "0 < chanCap (doneCh f)" "ticker f \<noteq> None"
  proof -
    from 4 [OF that] have "tryRecv (doneCh ?f) =
        Some ((doneCh ?f)\<lparr>chanLen := chanLen (doneCh ?f) - 1\<rparr>)"
      by (simp only: tryRecv_def if_True)
    then show ?thesis by (simp only: pullLoopSteps.simps option.case)
  qed
  from 2 3 4 5 show ?thesis unfolding 1 by blast
qed

theorem Destroy_signals_once_witness:
  "chanCap (doneCh fetcher0) = 1 \<and> ticker fetcher0 \<noteq> None \<and>
   Destroy fetcher0 = Proceeds (None, fetcher0\<lparr>doneCh := \<lparr> chanCap = 1, chanLen = 1 \<rparr>\<rparr>) \<and>
   Destroy (fetcher0\<lparr>doneCh := \<lparr> chanCap = 1, chanLen = 1 \<rparr>\<rparr>) =
     Proceeds (None, fetcher0\<lparr>doneCh := \<lparr> chanCap = 1, chanLen = 1 \<rparr>\<rparr>) \<and>
   pullLoopSteps digest0 [DoneC] (fetcher0\<lparr>doneCh := \<lparr> chanCap = 1, chanLen = 1 \<rparr>\<rparr>) world0 =
     (True, fetcher0\<lparr>doneCh := \<lparr> chanCap = 1, chanLen = 0 \<rparr>, ticker := Some False\<rparr>, world0)"
proof -
  note T = Destroy_signals_once [of fetcher0 digest0 "tick0 ''new''" world0 "[]"]
  have c: "chanCap (doneCh fetcher0) = 1" "ticker fetcher0 \<noteq> None"
    by (simp_all add: fetcher0_fields)
  from T have d: "Destroy fetcher0 =
      Proceeds (None, fetcher0\<lparr>doneCh := \<lparr> chanCap = 1, chanLen = 1 \<rparr>\<rparr>)"
    by (simp add: fetcher0_fields)
  from T [THEN conjunct2, rule_format, OF d] c
  have "Destroy (fetcher0\<lparr>doneCh := \<lparr> chanCap = 1, chanLen = 1 \<rparr>\<rparr>) =
      Proceeds (None, fetcher0\<lparr>doneCh := \<lparr> chanCap = 1, chanLen = 1 \<rparr>\<rparr>)"
    "pullLoopSteps digest0 [DoneC] (fetcher0\<lparr>doneCh := \<lparr> chanCap = 1, chanLen = 1 \<rparr>\<rparr>) world0 =
      (True, fetcher0\<lparr>doneCh := \<lparr> chanCap = 1, chanLen = 0 \<rparr>, ticker := Some False\<rparr>, world0)"
    by simp_all
  with c d show ?thesis by simp
qed

subsection \<open>DNS over HTTPS\<close>

lemma exchangeCtx_deadline:
  "ctxDeadline (exchangeCtx env dc c) =
     (case ctxDeadline c of Some d \<Rightarrow> Some d | None \<Rightarrow> Some (dohNow env + timeout dc))"
  by (simp add: exchangeCtx_def Let_def WithTimeout_def split: option.splits)

lemma newDoHClient_timeout:
  "timeout (newDoHClient env u prx) = (if prx \<noteq> [] then 10 * Second else 5 * Second)"
  by (simp add: newDoHClient_def Let_def proxyTimeout_def DefaultDNSTimeout_def)

lemma doRequest_sent:
  "doRequest env dc c req hasProxy hp = (res, hp1, sent) \<Longrightarrow> q \<in> set sent \<Longrightarrow> q = req"
  by (auto simp: doRequest_def split: option.splits sum.splits prod.splits if_splits)

lemma doRequest_heap:
  "doRequest env dc c req hasProxy hp = ((r, err), hp1, sent) \<Longrightarrow>
     take (length hp) hp1 = hp \<and> (err = None \<longrightarrow> r = Some (length hp) \<and> length hp1 = Suc (length hp))"
  by (auto simp: doRequest_def split: option.splits sum.splits prod.splits if_splits)

lemma newRequest_body:
  "newRequest env dc m = Inr req \<Longrightarrow> pack env m = Inr (reqBody req)"
  by (auto simp: newRequest_def split: sum.splits option.splits)

text \<open>The paths of \<open>ExchangeContext\<close> that return.\<close>

lemma ExchangeContext_cases:
  assumes "ExchangeContext env dc c m hp = Returns ((r, err), dc1, hp1, sent)"
  obtains (early) "m < length hp" "hp1 = hp" "sent = []" "err \<noteq> None" "timeout dc1 = timeout dc"
  | (requested) req0 hpa where "m < length hp" "timeout dc1 = timeout dc"
      "newRequest env dc1 ((hp ! m)\<lparr>Id := 0\<rparr>) = Inr req0"
      "doRequest env dc1 (exchangeCtx env dc1 c) (req0\<lparr>reqCtx := exchangeCtx env dc1 c\<rparr>)
         (exchangeHasProxy env dc1 c) hp = ((r, err), hpa, sent)"
      "hp1 = (case (r, err) of (Some p, None) \<Rightarrow> hpa[p := (hpa ! p)\<lparr>Id := Id (hpa ! m)\<rparr>] | _ \<Rightarrow> hpa)"
proof -
  from assms have ml: "m < length hp" by (auto simp: ExchangeContext_def split: if_splits)
  show ?thesis
  proof (cases "locate env dc")
    case Panics
    with assms ml show ?thesis by (simp add: ExchangeContext_def)
  next
    case (Returns x)
    show ?thesis
    proof (cases x)
      case (Inl e)
      with Returns assms ml have "(None, Some e) = (r, err)" "hp1 = hp" "sent = []" "timeout dc1 = timeout dc"
        by (auto simp: ExchangeContext_def)
      then have "hp1 = hp" "sent = []" "err \<noteq> None" "timeout dc1 = timeout dc" by auto
      with ml show ?thesis by (rule early)
    next
      case (Inr d)
      from Returns Inr have t: "timeout d = timeout dc"
        by (auto simp: locate_def Let_def split: if_splits prod.splits sum.splits)
      show ?thesis
      proof (cases "newRequest env d ((hp ! m)\<lparr>Id := 0\<rparr>)")
        case (Inl e)
        with Returns Inr assms ml t
        have "hp1 = hp" "sent = []" "err \<noteq> None" "timeout dc1 = timeout dc"
          by (auto simp: ExchangeContext_def Let_def)
        with ml show ?thesis by (rule early)
      next
        case nr: (Inr req0)
        obtain r' err' hpa sent' where d: "doRequest env d (exchangeCtx env d c)
           (req0\<lparr>reqCtx := exchangeCtx env d c\<rparr>) (exchangeHasProxy env d c) hp = ((r', err'), hpa, sent')"
          by (metis surj_pair)
        from Returns Inr nr d assms ml
        have e: "dc1 = d" "r = r'" "err = err'" "sent = sent'"
          "hp1 = (case (r, err) of (Some p, None) \<Rightarrow> hpa[p := (hpa ! p)\<lparr>Id := Id (hpa ! m)\<rparr>] | _ \<Rightarrow> hpa)"
          by (auto simp: ExchangeContext_def Let_def split: if_splits)
        from ml t nr d e show ?thesis by (auto intro: requested)
      qed
    qed
  qed
qed

lemma ExchangeContext_sent_deadline:
  assumes "ExchangeContext env dc c m hp = Returns ((r, err), dc1, hp1, sent)" "q \<in> set sent"
  shows "ctxDeadline (reqCtx q) =
     (case ctxDeadline c of Some d \<Rightarrow> Some d | None \<Rightarrow> Some (dohNow env + timeout dc))"
  using assms(1)
proof (cases rule: ExchangeContext_cases)
  case early
  with assms(2) show ?thesis by simp
next
  case (requested req0 hpa)
  from doRequest_sent [OF requested(4) assms(2)]
  have "reqCtx q = exchangeCtx env dc1 c" by simp
  with exchangeCtx_deadline [of env dc1 c] requested(2) show ?thesis by (simp split: option.splits)
qed

lemma ExchangeContext_frame:
  assumes "ExchangeContext env dc c m hp = Returns ((r, err), dc1, hp1, sent)"
  shows "m < length hp \<and> take (length hp) hp1 = hp \<and>
         (\<forall>q \<in> set sent. pack env ((hp ! m)\<lparr>Id := 0\<rparr>) = Inr (reqBody q)) \<and>
         (err = None \<longrightarrow> (\<exists>p. r = Some p \<and> p < length hp1 \<and> Id (hp1 ! p) = Id (hp ! m)))"
  using assms
proof (cases rule: ExchangeContext_cases)
  case early
  then show ?thesis by auto
next
  case (requested req0 hpa)
  from doRequest_heap [OF requested(4)]
  have h: "take (length hp) hpa = hp" "err = None \<longrightarrow> r = Some (length hp) \<and> length hpa = Suc (length hp)"
    by auto
  from requested(1) h(1) have hm: "hpa ! m = hp ! m" by (metis nth_take)
  have s: "\<forall>q \<in> set sent. pack env ((hp ! m)\<lparr>Id := 0\<rparr>) = Inr (reqBody q)"
  proof
    fix q assume "q \<in> set sent"
    from doRequest_sent [OF requested(4) this] newRequest_body [OF requested(3)]
    show "pack env ((hp ! m)\<lparr>Id := 0\<rparr>) = Inr (reqBody q)" by simp
  qed
  show ?thesis
  proof (cases "err = None")
    case False
    then have "hp1 = hpa" using requested(5) by (auto split: option.splits)
    with False h requested(1) s show ?thesis by auto
  next
    case True
    with h have r: "r = Some (length hp)" "length hpa = Suc (length hp)" by auto
    with True requested(5) have h1: "hp1 = hpa[length hp := (hpa ! length hp)\<lparr>Id := Id (hpa ! m)\<rparr>]"
      by simp
    have "take (length hp) hp1 = hp" unfolding h1 using h(1) by simp
    moreover have "Id (hp1 ! length hp) = Id (hp ! m)" unfolding h1 using r hm by simp
    moreover have "length hp < length hp1" unfolding h1 using r by simp
    ultimately show ?thesis using requested(1) s r by simp
  qed
qed


lemma ExchangeContext_eval0:
  "ExchangeContext dohEnv0 (newDoHClient dohEnv0 ''https://1.1.1.1/dns-query'' []) ctxProxyP 0 [query0] =
   Returns ((Some 1, None),
     \<lparr> url = ''https://1.1.1.1/dns-query'', addr = ''1.1.1.1:443'', proxy = [],
       urlLog = ''https://1.1.1.1/dns-query'', resolved = True, timeout = 5000000000 \<rparr>,
     [query0, \<lparr> Id = 4660, Question = [''example.com. A''], Answer = [''93.184.216.34''] \<rparr>],
     [\<lparr> reqUrl = ''https://1.1.1.1/dns-query'', reqBody = ''id=0'',
        reqHeader = [(''content-type'', ''application/dns-message''),
                     (''accept'', ''application/dns-message'')],
        reqCtx = \<lparr> ctxDeadline = Some 5000000100, ctxResolverProxy = Some ''P'',
                   ctxProxyServerHost = False, ctxDohProxy = Some ''P'' \<rparr> \<rparr>])"
  by (simp add: ExchangeContext_def locate_def newDoHClient_def dohEnv0_def ctxProxyP_def query0_def
      newRequest_def doRequest_def exchangeCtx_def exchangeProxy_def exchangeHasProxy_def GetProxy_def
      WithTimeout_def JoinHostPort_def Background_def Let_def DefaultDNSTimeout_def Second_def)

text \<open>
  C6, as stated, fails: the budget is fixed when the client is made, from the proxy name
  it is made with, and not by how the query is routed. A client made without a proxy,
  asked through a context that carries the proxy \<open>P\<close> (which exists) and no deadline,
  routes its query through \<open>P\<close> with a budget of 5 seconds; a client made with the proxy
  name \<open>X\<close> (which does not exist) does not route through a proxy and has 10 seconds.
\<close>

theorem doh_timeout_claim_counterexample:
  "ctxDeadline ctxProxyP = None \<and>
   exchangeHasProxy dohEnv0 (newDoHClient dohEnv0 ''https://1.1.1.1/dns-query'' []) ctxProxyP \<and>
   ctxDeadline (exchangeCtx dohEnv0 (newDoHClient dohEnv0 ''https://1.1.1.1/dns-query'' []) ctxProxyP) =
     Some (dohNow dohEnv0 + 5 * Second) \<and>
   ctxDeadline Background = None \<and>
   \<not> exchangeHasProxy dohEnv0 (newDoHClient dohEnv0 ''https://1.1.1.1/dns-query'' ''X'') Background \<and>
   ctxDeadline (exchangeCtx dohEnv0 (newDoHClient dohEnv0 ''https://1.1.1.1/dns-query'' ''X'') Background) =
     Some (dohNow dohEnv0 + 10 * Second)"
  by (simp add: newDoHClient_def dohEnv0_def ctxProxyP_def exchangeCtx_def exchangeProxy_def
      exchangeHasProxy_def GetProxy_def WithTimeout_def Background_def Let_def DefaultDNSTimeout_def
      proxyTimeout_def Second_def)

text \<open>
  C6 (amended): every request a DoH exchange sends carries the caller's deadline
  unchanged when the caller's context has one; otherwise its deadline is the time of the
  call plus the budget fixed when the client was made: 10 seconds when the client was made
  with a non-empty proxy name, 5 seconds (the default DNS timeout) when it was made
  without, whatever proxy the context of the query names.
\<close>

theorem ExchangeContext_deadline:
  assumes "ExchangeContext env (newDoHClient env u prx) c m hp = Returns (res, dc1, hp1, sent)"
    and "q \<in> set sent"
  shows "ctxDeadline (reqCtx q) =
     (case ctxDeadline c of
        Some d \<Rightarrow> Some d
      | None \<Rightarrow> Some (dohNow env + (if prx \<noteq> [] then 10 * Second else 5 * Second)))"
proof -
  obtain r err where "res = (r, err)" by (cases res)
  with assms(1) have "ExchangeContext env (newDoHClient env u prx) c m hp =
     Returns ((r, err), dc1, hp1, sent)" by simp
  from ExchangeContext_sent_deadline [OF this assms(2)] newDoHClient_timeout [of env u prx]
  show ?thesis by (cases "ctxDeadline c") auto
qed

theorem ExchangeContext_deadline_witness:
  "ctxDeadline ctxProxyP = None \<and>
   (case ExchangeContext dohEnv0 (newDoHClient dohEnv0 ''https://1.1.1.1/dns-query'' [])
           ctxProxyP 0 [query0] of
      Panics \<Rightarrow> False
    | Returns (res, dc1, hp1, sent) \<Rightarrow>
        map (\<lambda>q. ctxDeadline (reqCtx q)) sent = [Some (100 + 5 * Second)])"
proof -
  let ?q = "\<lparr> reqUrl = ''https://1.1.1.1/dns-query'', reqBody = ''id=0'',
        reqHeader = [(''content-type'', ''application/dns-message''),
                     (''accept'', ''application/dns-message'')],
        reqCtx = \<lparr> ctxDeadline = Some 5000000100, ctxResolverProxy = Some ''P'',
                   ctxProxyServerHost = False, ctxDohProxy = Some ''P'' \<rparr> \<rparr>"
  have d: "ctxDeadline ctxProxyP = None" "dohNow dohEnv0 = 100"
    by (simp_all add: ctxProxyP_def dohEnv0_def)
  from ExchangeContext_deadline [OF ExchangeContext_eval0, of ?q] d
  have "ctxDeadline (reqCtx ?q) = Some (100 + 5 * Second)" by simp
  with d show ?thesis by (simp add: ExchangeContext_eval0)
qed

text \<open>
  C10: when \<open>ExchangeContext\<close> returns, the caller's message, like every message the
  store held, is as it was; every request sent carries the packed copy of the message
  with identifier 0; and when the returned error is nil, the returned message has the
  identifier of the caller's message.
\<close>

theorem ExchangeContext_keeps_message:
  assumes "ExchangeContext env dc c m hp = Returns ((r, err), dc1, hp1, sent)"
  shows "m < length hp \<and> take (length hp) hp1 = hp \<and> hp1 ! m = hp ! m \<and>
         (\<forall>q \<in> set sent. pack env ((hp ! m)\<lparr>Id := 0\<rparr>) = Inr (reqBody q)) \<and>
         (err = None \<longrightarrow> (\<exists>p. r = Some p \<and> p < length hp1 \<and> Id (hp1 ! p) = Id (hp ! m)))"
proof -
  from ExchangeContext_frame [OF assms]
  have f: "m < length hp" "take (length hp) hp1 = hp"
    "\<forall>q \<in> set sent. pack env ((hp ! m)\<lparr>Id := 0\<rparr>) = Inr (reqBody q)"
    "err = None \<longrightarrow> (\<exists>p. r = Some p \<and> p < length hp1 \<and> Id (hp1 ! p) = Id (hp ! m))"
    by auto
  from f(1,2) have "hp1 ! m = hp ! m" by (metis nth_take)
  with f show ?thesis by simp
qed

theorem ExchangeContext_keeps_message_witness:
  "(case ExchangeContext dohEnv0 (newDoHClient dohEnv0 ''https://1.1.1.1/dns-query'' [])
           ctxProxyP 0 [query0] of
      Panics \<Rightarrow> False
    | Returns ((r, err), dc1, hp1, sent) \<Rightarrow>
        err = None \<and> r = Some 1 \<and> hp1 ! 0 = query0 \<and> Id (hp1 ! 1) = Id query0 \<and>
        map reqBody sent = [''id=0''])"
proof -
  have i: "Id query0 = 4660" by (simp add: query0_def)
  from ExchangeContext_keeps_message [OF ExchangeContext_eval0] i
  show ?thesis by (simp add: ExchangeContext_eval0)
qed

subsection \<open>Resolving a host to one address\<close>

lemma viaSystem_nonempty: "viaSystem env c host t \<noteq> ([], None)"
proof (cases "ParseAddr env host")
  case (Some ip0)
  then show ?thesis by (simp add: viaSystem_def Let_def)
next
  case None
  obtain ips err where n: "netLookupIP env c
      (if t = typeA then ''ip4'' else if t = typeAAAA then ''ip6'' else ''ip'') host = (ips, err)"
    by (meson surj_pair)
  show ?thesis
  proof (cases err)
    case (Some e)
    with None n show ?thesis by (simp add: viaSystem_def Let_def)
  next
    case eNone: None
    with None n show ?thesis by (cases ips) (simp_all add: viaSystem_def Let_def)
  qed
qed

lemma viaResolver_nonempty:
  assumes "resolverNonEmpty (Some rs)"
  shows "viaResolver env rs c host t both \<noteq> ([], None)"
  using assms by (simp add: viaResolver_def resolverNonEmpty_def answersNonEmpty_def)

lemma lookupBody_nonempty:
  assumes "resolverNonEmpty r" "answersNonEmpty k"
  shows "lookupBody k env c host r t both \<noteq> ([], None)"
proof (cases "t = typeAAAA \<and> DisableIPv6 env \<and> \<not> both")
  case True
  then show ?thesis by (simp add: lookupBody_def)
next
  case nd: False
  show ?thesis
  proof (cases "hostsHit env host t")
    case (Some ip)
    with nd show ?thesis by (simp add: lookupBody_def)
  next
    case None
    show ?thesis
    proof (cases r)
      case (Some rs)
      with assms(1) have "viaResolver env rs c host t both \<noteq> ([], None)"
        by (simp add: viaResolver_nonempty)
      with nd None Some show ?thesis by (simp add: lookupBody_def)
    next
      case rNone: None
      from assms(2) have "k c host \<noteq> ([], None)" by (simp add: answersNonEmpty_def)
      with nd None rNone viaSystem_nonempty [of env c host t] show ?thesis
        by (simp add: lookupBody_def)
    qed
  qed
qed

lemma answersNonEmpty_never: "answersNonEmpty k \<Longrightarrow> k c h \<noteq> ([], None)"
  by (simp add: answersNonEmpty_def)

text \<open>With type A, the body does not call \<open>lookupIPv4\<close>.\<close>

lemma lookupBody_typeA: "lookupBody k env c host r typeA both = lookupBody k' env c host r typeA both"
  by (simp add: lookupBody_def typeA_def typeNone_def typeAAAA_def)

lemma LookupIPv4_nonempty:
  assumes "resolverNonEmpty (DefaultResolver env)"
  shows "answersNonEmpty (LookupIPv4 env)"
proof -
  have k: "answersNonEmpty (\<lambda>c h. ([IPv4 0], None))" by (simp add: answersNonEmpty_def)
  have "\<And>c h. LookupIPv4 env c h = lookupBody (\<lambda>c h. ([IPv4 0], None)) env c h (DefaultResolver env) typeA False"
    unfolding LookupIPv4_def by (rule lookupBody_typeA)
  with lookupBody_nonempty [OF assms k] show ?thesis by (simp add: answersNonEmpty_def)
qed

lemma lookupIPByResolverAndType_nonempty:
  assumes "resolverNonEmpty (DefaultResolver env)" "resolverNonEmpty r"
  shows "lookupIPByResolverAndType env c host r t both \<noteq> ([], None)"
  unfolding lookupIPByResolverAndType_def
  by (rule lookupBody_nonempty [OF assms(2) LookupIPv4_nonempty [OF assms(1)]])

lemma lookupByType_nonempty:
  assumes "resolverNonEmpty (DefaultResolver env)"
  shows "lookupByType env host t \<noteq> ([], None)"
  using lookupIPByResolverAndType_nonempty [OF assms assms]
    answersNonEmpty_never [OF LookupIPv4_nonempty [OF assms]]
  by (simp add: lookupByType_def LookupIP_def LookupIPByResolver_def LookupIPv6_def)

lemma lookupProxyServerHost_nonempty:
  assumes "resolverNonEmpty (DefaultResolver env)"
  shows "lookupProxyServerHost env host t \<noteq> ([], None)"
  using lookupIPByResolverAndType_nonempty [OF assms assms]
  by (simp add: lookupProxyServerHost_def)

lemma pickRandom_Returns:
  "pickRandom n ips = Returns ip \<Longrightarrow> ips \<noteq> [] \<and> ip \<in> set ips"
  by (auto simp: pickRandom_def split: if_splits)

lemma pickRandom_Panics: "pickRandom n ips = Panics \<longleftrightarrow> ips = []"
  by (simp add: pickRandom_def)

lemma resolveIPByType_member:
  assumes "resolveIPByType env host t = Returns (ip, None)"
  shows "\<exists>ips. lookupByType env host t = (ips, None) \<and> ips \<noteq> [] \<and> ip \<in> set ips"
proof -
  obtain ips err where l: "lookupByType env host t = (ips, err)" by (meson surj_pair)
  with assms have e: "err = None" by (cases err) (auto simp: resolveIPByType_def)
  with l assms have "pickRandom (randDraw env) ips = Returns ip"
    by (auto simp: resolveIPByType_def split: outcome.splits)
  from pickRandom_Returns [OF this] l e show ?thesis by simp
qed

lemma resolveProxyServerHostByType_member:
  assumes "resolveProxyServerHostByType env host t = Returns (ip, None)"
  shows "\<exists>ips. lookupProxyServerHost env host t = (ips, None) \<and> ips \<noteq> [] \<and> ip \<in> set ips"
proof -
  obtain ips err where l: "lookupProxyServerHost env host t = (ips, err)" by (meson surj_pair)
  with assms have e: "err = None" by (cases err) (auto simp: resolveProxyServerHostByType_def)
  with l assms have "pickRandom (randDraw env) ips = Returns ip"
    by (auto simp: resolveProxyServerHostByType_def split: outcome.splits)
  from pickRandom_Returns [OF this] l e show ?thesis by simp
qed

lemma resolveIPByType_no_panic:
  assumes "resolverNonEmpty (DefaultResolver env)"
  shows "resolveIPByType env host t \<noteq> Panics"
proof -
  obtain ips err where l: "lookupByType env host t = (ips, err)" by (meson surj_pair)
  with lookupByType_nonempty [OF assms, of host t] have "err \<noteq> None \<or> ips \<noteq> []" by auto
  with l show ?thesis
    by (cases err) (auto simp: resolveIPByType_def pickRandom_def split: outcome.splits)
qed

lemma resolveProxyServerHostByType_no_panic:
  assumes "resolverNonEmpty (DefaultResolver env)"
  shows "resolveProxyServerHostByType env host t \<noteq> Panics"
proof -
  obtain ips err where l: "lookupProxyServerHost env host t = (ips, err)" by (meson surj_pair)
  with lookupProxyServerHost_nonempty [OF assms, of host t] have "err \<noteq> None \<or> ips \<noteq> []" by auto
  with l show ?thesis
    by (cases err) (auto simp: resolveProxyServerHostByType_def pickRandom_def split: outcome.splits)
qed


lemma resolve_eval0:
  "resolveIPByType resolverEnv0 ''example.com'' typeNone = Returns (IPv6 2, None)"
  "lookupByType resolverEnv0 ''example.com'' typeNone = ([IPv4 1, IPv6 2], None)"
  "resolveIPByType resolverEnv0 ''localhost'' typeA = Returns (IPv4 2130706433, None)"
  "resolveIPByType resolverEnv0 ''nowhere'' typeAAAA = Returns (ZeroAddr, Some ErrIPNotFound)"
  "resolveProxyServerHostByType resolverEnv0 ''example.com'' typeAAAA = Returns (IPv6 2, None)"
  by (simp_all add: resolveIPByType_def resolveProxyServerHostByType_def lookupByType_def
      lookupProxyServerHost_def LookupIP_def LookupIPByResolver_def LookupIPv4_def LookupIPv6_def
      lookupIPByResolverAndType_def lookupBody_def hostsHit_def viaResolver_def viaSystem_def
      resolverEnv0_def resolver0_def pickRandom_def typeNone_def typeA_def typeAAAA_def Let_def)

lemma resolverNonEmpty0: "resolverNonEmpty (DefaultResolver resolverEnv0)"
  by (simp add: resolverEnv0_def resolver0_def resolverNonEmpty_def answersNonEmpty_def)

text \<open>
  What holds of every environment: when \<open>resolveIPByType\<close> or
  \<open>resolveProxyServerHostByType\<close> returns without error, its lookup returned a non-empty
  list without error and the returned address is one of that list. On the paths of
  package resolver itself (hosts table, literal address, system resolver) the lookup never
  returns an empty list without error; a panic can only come from an answer of the
  \<open>Resolver\<close>.
\<close>

lemma resolve_returns_member:
  "(resolveIPByType env host t = Returns (ip, None) \<longrightarrow>
      (\<exists>ips. lookupByType env host t = (ips, None) \<and> ips \<noteq> [] \<and> ip \<in> set ips)) \<and>
   (resolveProxyServerHostByType env host t = Returns (ip, None) \<longrightarrow>
      (\<exists>ips. lookupProxyServerHost env host t = (ips, None) \<and> ips \<noteq> [] \<and> ip \<in> set ips)) \<and>
   (resolverNonEmpty (DefaultResolver env) \<longrightarrow>
      lookupByType env host t \<noteq> ([], None) \<and> lookupProxyServerHost env host t \<noteq> ([], None) \<and>
      resolveIPByType env host t \<noteq> Panics \<and> resolveProxyServerHostByType env host t \<noteq> Panics)"
  using resolveIPByType_member [of env host t ip]
    resolveProxyServerHostByType_member [of env host t ip]
    lookupByType_nonempty [of env host t] lookupProxyServerHost_nonempty [of env host t]
    resolveIPByType_no_panic [of env host t] resolveProxyServerHostByType_no_panic [of env host t]
  by blast

lemma resolve_panics_iff:
  "resolveIPByType env host t = Panics \<longleftrightarrow> lookupByType env host t = ([], None)"
  "resolveProxyServerHostByType env host t = Panics \<longleftrightarrow>
     lookupProxyServerHost env host t = ([], None)"
proof -
  obtain ips err where l: "lookupByType env host t = (ips, err)" by (meson surj_pair)
  then show "resolveIPByType env host t = Panics \<longleftrightarrow> lookupByType env host t = ([], None)"
    by (cases err; cases ips) (simp_all add: resolveIPByType_def pickRandom_def)
  obtain ips' err' where l': "lookupProxyServerHost env host t = (ips', err')"
    by (meson surj_pair)
  then show "resolveProxyServerHostByType env host t = Panics \<longleftrightarrow>
     lookupProxyServerHost env host t = ([], None)"
    by (cases err'; cases ips') (simp_all add: resolveProxyServerHostByType_def pickRandom_def)
qed

text \<open>
  C9 at a failing input: the host is not in the hosts table and the \<open>DefaultResolver\<close>
  answers with an empty list and a nil error. \<open>lookupIPByResolverAndType\<close> returns that
  answer as it is, and both functions reach \<open>ips[rand.IntN(len(ips))]\<close> with an empty
  list and panic. Without a \<open>Resolver\<close> the same answer of the system resolver is turned
  into \<open>ErrIPNotFound\<close> by the check of \<open>len(ips) == 0\<close>, which the path through the
  \<open>Resolver\<close> lacks.
\<close>

theorem resolve_panics_on_empty_answer:
  "lookupByType resolverEnvSilent ''example.org'' typeNone = ([], None) \<and>
   resolveIPByType resolverEnvSilent ''example.org'' typeNone = Panics \<and>
   lookupProxyServerHost resolverEnvSilent ''example.org'' typeA = ([], None) \<and>
   resolveProxyServerHostByType resolverEnvSilent ''example.org'' typeA = Panics \<and>
   resolveIPByType (resolverEnvSilent\<lparr>DefaultResolver := None\<rparr>) ''example.org'' typeNone =
     Returns (ZeroAddr, Some ErrIPNotFound) \<and>
   resolveProxyServerHostByType (resolverEnvSilent\<lparr>DefaultResolver := None\<rparr>) ''example.org''
     typeA = Returns (ZeroAddr, Some ErrIPNotFound)"
  by (simp add: resolveIPByType_def resolveProxyServerHostByType_def lookupByType_def
      lookupProxyServerHost_def LookupIP_def LookupIPByResolver_def LookupIPv4_def LookupIPv6_def
      lookupIPByResolverAndType_def lookupBody_def hostsHit_def viaResolver_def viaSystem_def
      resolverEnvSilent_def resolverSilent_def pickRandom_def typeNone_def typeA_def
      typeAAAA_def Let_def)

subsection \<open>DHCP upstream\<close>

text \<open>
  A resolution is issued only when none is in flight, the 20 seconds of the interface
  check have passed, and the hour has passed or the stored pointer is not the pointer the
  interface hands out.
\<close>

lemma resolveIssue_only_if:
  assumes "fst (resolveIssue env d)"
  shows "\<not> refreshing d \<and> ifaceInvalidate d \<le> now1 env \<and>
         (\<exists>a. pickIPv4Addr env = Inr a \<and>
              (dnsInvalidate d \<le> now3 env \<or> ifaceAddr d \<noteq> Some a))"
  using assms
  by (auto simp: resolveIssue_def invalidate_def Let_def
      split: if_splits sum.splits prod.splits option.splits)

text \<open>
  C7 at a failing input: 30 seconds after an answer was cached for an hour, with no
  resolution in flight, the interface still has the prefix \<open>192.168.1.10/24\<close>, now handed
  out at another pointer. \<open>d.ifaceAddr == addr\<close> compares the pointers, finds them
  different, and a new DHCP resolution is issued although the hour has not passed and the
  address is unchanged. Handed out at the same pointer, no resolution is issued.
\<close>

theorem dhcp_reissues_for_same_address:
  "now3 (dhcpLater 2) < dnsInvalidate dhcpCached \<and>
   ifaceAddr dhcpCached = Some 1 \<and>
   pickIPv4Addr (dhcpLater 2) = Inr 2 \<and>
   prefixAt (dhcpLater 2) 2 = prefixAt (dhcpLater 2) 1 \<and>
   \<not> refreshing dhcpCached \<and>
   fst (resolveIssue (dhcpLater 2) dhcpCached) \<and>
   \<not> fst (resolveIssue (dhcpLater 1) dhcpCached)"
  by (simp add: resolveIssue_def invalidate_def dhcpLater_def dhcpCached_def Let_def
      IfaceTTL_def DHCPTTL_def Second_def)

subsection \<open>Parsing proxies\<close>

text \<open>
  C2 at a failing input: a config whose only proxy is named \<open>GLOBAL\<close> parses without
  error. The key \<open>GLOBAL\<close> of the returned map holds the built-in selector, and the
  configured proxy, also named \<open>GLOBAL\<close>, is a member of the selector's provider: two
  proxies share a name after a successful parse. Every other insertion into the map is
  guarded: a group that repeats the name of a leaf makes parsing fail.
\<close>

theorem parseProxies_accepts_GLOBAL:
  "(case parseProxies parseEnv0 configGlobal of
      Inl e \<Rightarrow> False
    | Inr (prx, pds) \<Rightarrow>
        prx ''GLOBAL'' =
          Some (NewProxy (Selector ''GLOBAL''
            [Provider ''default'' Compatible
               [Some (NewProxy Direct), Some (NewProxy Reject),
                Some (NewProxy (Leaf ''GLOBAL''
                  [(''name'', YStr ''GLOBAL''), (''type'', YStr ''ss'')]))]])) \<and>
        Name (NewProxy (Leaf ''GLOBAL''
          [(''name'', YStr ''GLOBAL''), (''type'', YStr ''ss'')])) = ''GLOBAL'') \<and>
   parseProxies parseEnv0 configDup = Inl (Err ''proxy group a: the duplicate name'')"
  by (simp add: parseProxies_def parseEnv0_def configGlobal_def configDup_def nameOf_def
      ReservedName_def Let_def)

subsection \<open>Rule providers named in scripts\<close>

lemma registerProviders_closed:
  "registerProviders env vs rp k =
     (if rp k \<noteq> None then rp k
      else if k \<in> ToLower env ` set vs then
        (case NewGEOSITE env k (ScriptRuleGeoSiteTarget env) of
           Inl e \<Rightarrow> None
         | Inr r \<Rightarrow> Some r)
      else None)"
proof (induction vs arbitrary: rp)
  case Nil
  then show ?case by auto
next
  case (Cons v vs)
  show ?case
  proof (cases "rp (ToLower env v) \<noteq> None")
    case True
    then have step: "registerProviders env (v # vs) rp = registerProviders env vs rp"
      by (simp add: Let_def)
    from True show ?thesis unfolding step Cons.IH by auto
  next
    case False
    show ?thesis
    proof (cases "NewGEOSITE env (ToLower env v) (ScriptRuleGeoSiteTarget env)")
      case (Inl e)
      with False have step: "registerProviders env (v # vs) rp = registerProviders env vs rp"
        by (simp add: Let_def)
      from False Inl show ?thesis unfolding step Cons.IH by auto
    next
      case (Inr r)
      with False have step: "registerProviders env (v # vs) rp =
          registerProviders env vs (rp(ToLower env v \<mapsto> r))"
        by (simp add: Let_def)
      from False Inr show ?thesis unfolding step Cons.IH by auto
    qed
  qed
qed

lemma closesWith_no_quote:
  "\<forall>c \<in> set ys. \<not> isQuote c \<Longrightarrow> \<not> closesWith lit (drop i ys)"
proof
  assume a: "\<forall>c \<in> set ys. \<not> isQuote c" and c: "closesWith lit (drop i ys)"
  then obtain q r where d: "drop i ys = q # r" "isQuote q"
    by (auto simp: closesWith_def split: list.splits)
  then have "q \<in> set (drop i ys)" by simp
  then have "q \<in> set ys" by (rule in_set_dropD)
  with a d(2) show False by blast
qed

lemma backoff_exact:
  assumes "closesWith lit (drop n r)" "0 < n" "n \<le> k"
    "\<forall>j. n < j \<and> j \<le> k \<longrightarrow> \<not> closesWith lit (drop j r)"
  shows "backoff lit r k = Some n"
  using assms
proof (induction k)
  case 0
  then show ?case by simp
next
  case (Suc k)
  show ?case
  proof (cases "n = Suc k")
    case True
    with Suc.prems show ?thesis by simp
  next
    case False
    with Suc.prems have "n \<le> k" by simp
    moreover from Suc.prems False have "\<not> closesWith lit (drop (Suc k) r)" by auto
    moreover from Suc.prems have "\<forall>j. n < j \<and> j \<le> k \<longrightarrow> \<not> closesWith lit (drop j r)" by auto
    ultimately show ?thesis using Suc.IH Suc.prems(1,2) by simp
  qed
qed

text \<open>A capture closed by a quote and a literal that holds no quote, with nothing behind.\<close>

lemma quoted_exact:
  assumes "x \<noteq> []" "\<forall>c \<in> set x. \<not> isSpaceRE c" "isQuote q" "isQuote q'"
    "\<forall>c \<in> set lit. \<not> isQuote c \<and> \<not> isSpaceRE c" "\<not> isSpaceRE q'"
  shows "quoted lit (q # x @ q' # lit) = Some (x, length (q # x @ q' # lit))"
proof -
  let ?r = "x @ q' # lit"
  have run: "takeWhile (\<lambda>c. \<not> isSpaceRE c) ?r = ?r"
    using assms(2,5,6) by (auto simp: takeWhile_eq_all_conv)
  have c: "closesWith lit (drop (length x) ?r)" using assms(4) by (simp add: closesWith_def)
  have n: "\<forall>j. length x < j \<and> j \<le> length ?r \<longrightarrow> \<not> closesWith lit (drop j ?r)"
  proof (intro allI impI)
    fix j assume j: "length x < j \<and> j \<le> length ?r"
    then have "drop j ?r = drop (j - length x - 1) lit" by (cases "j - length x") auto
    moreover from assms(5) have "\<not> closesWith lit (drop (j - length x - 1) lit)"
      by (intro closesWith_no_quote) blast
    ultimately show "\<not> closesWith lit (drop j ?r)" by simp
  qed
  from assms(1) have "0 < length x" by simp
  from backoff_exact [OF c this _ n] have b0: "backoff lit ?r (length ?r) = Some (length x)"
    by simp
  have b: "backoff lit ?r (length (takeWhile (\<lambda>c. \<not> isSpaceRE c) ?r)) = Some (length x)"
    by (simp only: run b0)
  have t: "take (length x) ?r = x" by simp
  show ?thesis
    by (simp only: quoted_def list.case if_True assms(3) b option.case t) simp
qed

lemma findAllSubmatch_short: "length s \<le> k \<Longrightarrow> findAllSubmatch k s = []"
  by (induction k s rule: findAllSubmatch.induct) auto

lemma isQuote_simps [simp]: "isQuote dquote" "isQuote squote" "\<not> isSpaceRE dquote" "\<not> isSpaceRE squote"
  by (simp_all add: isQuote_def isSpaceRE_def dquote_def squote_def)

lemma matchHere_callRef:
  assumes "x \<noteq> []" "\<forall>c \<in> set x. \<not> isSpaceRE c"
  shows "matchHere (callRef x) = Some ([[], x], length (callRef x))"
proof -
  have l: "\<forall>c \<in> set '')''. \<not> isQuote c \<and> \<not> isSpaceRE c"
    by (simp add: isQuote_def isSpaceRE_def dquote_def squote_def)
  from quoted_exact [OF assms _ _ l, of dquote dquote]
  have q: "quoted '')'' (dquote # x @ dquote # '')'') = Some (x, length (dquote # x @ dquote # '')''))"
    by simp
  have i: "matchIndexed (callRef x) = None" by (simp add: matchIndexed_def callRef_def)
  have "matchCall (callRef x) = Some (x, length (callRef x))"
    using q by (simp add: matchCall_def callRef_def)
  with i show ?thesis by (simp add: matchHere_def)
qed

lemma matchHere_indexRef:
  assumes "x \<noteq> []" "\<forall>c \<in> set x. \<not> isSpaceRE c"
  shows "matchHere (indexRef x) = Some ([x, []], length (indexRef x))"
proof -
  have l: "\<forall>c \<in> set ''].match''. \<not> isQuote c \<and> \<not> isSpaceRE c"
    by (simp add: isQuote_def isSpaceRE_def dquote_def squote_def)
  from quoted_exact [OF assms _ _ l, of dquote dquote]
  have q: "quoted ''].match'' (dquote # x @ dquote # ''].match'') =
     Some (x, length (dquote # x @ dquote # ''].match''))"
    by simp
  have "matchIndexed (indexRef x) = Some (x, length (indexRef x))"
    using q by (simp add: matchIndexed_def indexRef_def runeLen_def)
  then show ?thesis by (simp add: matchHere_def)
qed

lemma findRuleProvidersName_single:
  assumes "x \<noteq> []" "\<forall>c \<in> set x. \<not> isSpaceRE c"
  shows "findRuleProvidersName (callRef x) = [x]" "findRuleProvidersName (indexRef x) = [x]"
proof -
  obtain c cs where c: "callRef x = c # cs" by (cases "callRef x") (auto simp: callRef_def)
  with matchHere_callRef [OF assms]
  have "findAllSubmatch 0 (callRef x) = [[], x] # findAllSubmatch (length cs) cs" by simp
  then have "findAllSubmatch 0 (callRef x) = [[[], x]]" by (simp add: findAllSubmatch_short)
  with assms(1) show "findRuleProvidersName (callRef x) = [x]"
    by (simp add: findRuleProvidersName_def Uniq_def)
  obtain d ds where d: "indexRef x = d # ds" by (cases "indexRef x") (auto simp: indexRef_def)
  with matchHere_indexRef [OF assms]
  have "findAllSubmatch 0 (indexRef x) = [x, []] # findAllSubmatch (length ds) ds" by simp
  then have "findAllSubmatch 0 (indexRef x) = [[x, []]]" by (simp add: findAllSubmatch_short)
  with assms(1) show "findRuleProvidersName (indexRef x) = [x]"
    by (simp add: findRuleProvidersName_def Uniq_def)
qed


text \<open>The shape of a match, and references set off by white space.\<close>

lemma backoff_Some:
  "backoff lit r k = Some n \<Longrightarrow> 0 < n \<and> n \<le> k \<and> closesWith lit (drop n r)"
  by (induction k) (auto split: if_splits)

lemma takeWhile_prefix_all:
  assumes "k \<le> length (takeWhile P r)"
  shows "\<forall>c \<in> set (take k r). P c" "k \<le> length r"
proof -
  have "take k (takeWhile P r @ dropWhile P r) = take k (takeWhile P r)"
    using assms by (simp del: takeWhile_dropWhile_id)
  then have k: "take k r = take k (takeWhile P r)" by (simp only: takeWhile_dropWhile_id)
  have "set (take k (takeWhile P r)) \<subseteq> set (takeWhile P r)" by (rule set_take_subset)
  with k show "\<forall>c \<in> set (take k r). P c" by (auto dest: set_takeWhileD)
  from assms length_takeWhile_le [of P r] show "k \<le> length r" by linarith
qed

lemma quoted_shape:
  assumes "quoted lit r = Some (cap, m)"
  shows "\<exists>q q' rest. r = q # cap @ q' # lit @ rest \<and> isQuote q \<and> isQuote q' \<and> cap \<noteq> [] \<and>
           (\<forall>c \<in> set cap. \<not> isSpaceRE c) \<and> m = length cap + 2 + length lit"
proof -
  from assms obtain q r' where r: "r = q # r'" "isQuote q"
    by (auto simp: quoted_def split: list.splits if_splits)
  with assms obtain k where k: "backoff lit r' (length (takeWhile (\<lambda>c. \<not> isSpaceRE c) r')) = Some k"
    "cap = take k r'" "m = 1 + k + 1 + length lit"
    by (auto simp: quoted_def split: option.splits)
  from backoff_Some [OF k(1)] have b: "0 < k" "k \<le> length (takeWhile (\<lambda>c. \<not> isSpaceRE c) r')"
    "closesWith lit (drop k r')" by auto
  from takeWhile_prefix_all [OF b(2)] have ns: "\<forall>c \<in> set (take k r'). \<not> isSpaceRE c" "k \<le> length r'"
    by auto
  from b(3) obtain q' rest where d: "drop k r' = q' # lit @ rest" "isQuote q'"
    by (auto simp: closesWith_def prefix_def split: list.splits)
  have "r' = take k r' @ drop k r'" by simp
  with d k(2) have "r' = cap @ q' # lit @ rest" by simp
  moreover from ns(2) k(2) b(1) have "cap \<noteq> []" "length cap = k" by auto
  ultimately show ?thesis using r d(2) ns(1) k(2,3) by auto
qed


lemma matchCall_shape:
  assumes "matchCall s = Some (cap, n)"
  shows "\<exists>q q' rest. s = callText q cap q' @ rest \<and> n = length (callText q cap q') \<and>
           isQuote q \<and> isQuote q' \<and> cap \<noteq> [] \<and> (\<forall>c \<in> set cap. \<not> isSpaceRE c)"
proof -
  from assms have p: "prefix ''match_provider('' s" by (auto simp: matchCall_def split: if_splits)
  then obtain r where r: "s = ''match_provider('' @ r" by (auto simp: prefix_def)
  with assms obtain m where m: "quoted '')'' r = Some (cap, m)" "n = length ''match_provider('' + m"
    by (auto simp: matchCall_def)
  from quoted_shape [OF m(1)] obtain q q' rest where
    "r = q # cap @ q' # '')'' @ rest" "isQuote q" "isQuote q'" "cap \<noteq> []"
    "\<forall>c \<in> set cap. \<not> isSpaceRE c" "m = length cap + 2 + length '')''" by blast
  with r m(2) show ?thesis by (auto simp: callText_def)
qed

text \<open>
  The first rune of a string takes at least one of its bytes, and a rune of more than one
  byte holds no byte below 128.
\<close>

lemma runeLen_bounds: "s \<noteq> [] \<Longrightarrow> 0 < runeLen s \<and> runeLen s \<le> length s"
  by (auto simp: runeLen_def Let_def Suc_le_eq split: list.splits)

lemma runeLen_high:
  assumes "1 < runeLen s" "i < runeLen s"
  shows "(128::nat) \<le> of_char (s ! i)"
proof -
  from assms(1) obtain c0 r where s: "s = c0 # r" by (cases s) (auto simp: runeLen_def)
  from assms(1) s have b0: "(0xC2::nat) \<le> of_char c0"
    by (auto simp: runeLen_def Let_def split: if_splits)
  from assms(1) s have w: "runeLen s = 2 \<or> runeLen s = 3 \<or> runeLen s = 4"
    by (auto simp: runeLen_def Let_def split: if_splits)
  from assms(1) s have c1: "(128::nat) \<le> of_char (r ! 0)"
    by (auto simp: runeLen_def Let_def inRange_def split: if_splits)
  have c2: "(128::nat) \<le> of_char (r ! 1)" if "2 < runeLen s"
    using that s by (auto simp: runeLen_def Let_def inRange_def split: if_splits)
  have c3: "(128::nat) \<le> of_char (r ! 2)" if "3 < runeLen s"
    using that s by (auto simp: runeLen_def Let_def inRange_def split: if_splits)
  from assms(2) w consider "i = 0" | "i = 1" | "i = 2" "2 < runeLen s" | "i = 3" "3 < runeLen s"
    by linarith
  then show ?thesis
  proof cases
    case 1
    with b0 s show ?thesis by simp
  next
    case 2
    with c1 s show ?thesis by simp
  next
    case 3
    with c2 s show ?thesis by simp
  next
    case 4
    with c3 s show ?thesis by simp
  qed
qed

lemma isSpaceRE_low: "isSpaceRE c \<Longrightarrow> of_char c < (128::nat)"
  by (auto simp: isSpaceRE_def)

lemma rune_space:
  assumes "s \<noteq> []" "c \<in> set (take (runeLen s) s)" "isSpaceRE c"
  shows "runeLen s = 1"
proof (rule ccontr)
  assume "runeLen s \<noteq> 1"
  with runeLen_bounds [OF assms(1)] have w: "1 < runeLen s" "runeLen s \<le> length s" by auto
  from assms(2) obtain i where i: "i < length (take (runeLen s) s)" "take (runeLen s) s ! i = c"
    by (auto simp: in_set_conv_nth)
  with w have "i < runeLen s" "s ! i = c" by auto
  with runeLen_high [OF w(1), of i] isSpaceRE_low [OF assms(3)] show False by simp
qed

lemma matchIndexed_shape:
  assumes "matchIndexed s = Some (cap, n)"
  shows "\<exists>u q q' rest. s = indexText u q cap q' @ rest \<and> n = length (indexText u q cap q') \<and>
           u \<noteq> [] \<and> (length u = 1 \<or> (\<forall>c \<in> set u. \<not> isSpaceRE c)) \<and>
           isQuote q \<and> isQuote q' \<and> cap \<noteq> [] \<and> (\<forall>c \<in> set cap. \<not> isSpaceRE c)"
proof -
  from assms have p: "prefix ''ctx'' s" by (auto simp: matchIndexed_def split: if_splits)
  then obtain r0 where r0: "s = ''ctx'' @ r0" by (auto simp: prefix_def)
  with assms have ne: "r0 \<noteq> []" by (auto simp: matchIndexed_def split: list.splits)
  define w where "w = runeLen r0"
  define u where "u = take w r0"
  from runeLen_bounds [OF ne] have wb: "0 < w" "w \<le> length r0" by (simp_all add: w_def)
  then have un: "u \<noteq> []" "length u = w" by (auto simp: u_def)
  have split: "r0 = u @ drop w r0" by (simp add: u_def)
  from assms r0 ne have pr: "prefix ''rule_providers['' (drop w r0)"
    by (auto simp: matchIndexed_def Let_def w_def split: list.splits if_splits)
  then obtain r where r: "drop w r0 = ''rule_providers['' @ r" by (auto simp: prefix_def)
  with assms r0 ne obtain m where m: "quoted ''].match'' r = Some (cap, m)"
    "n = 3 + w + length ''rule_providers['' + m"
    by (auto simp: matchIndexed_def Let_def w_def split: list.splits if_splits)
  from quoted_shape [OF m(1)] obtain q q' rest where
    q: "r = q # cap @ q' # ''].match'' @ rest" "isQuote q" "isQuote q'" "cap \<noteq> []"
    "\<forall>c \<in> set cap. \<not> isSpaceRE c" "m = length cap + 2 + length ''].match''" by blast
  have sp: "length u = 1 \<or> (\<forall>c \<in> set u. \<not> isSpaceRE c)"
  proof (rule disjCI)
    assume "\<not> (\<forall>c \<in> set u. \<not> isSpaceRE c)"
    then obtain c where "c \<in> set (take (runeLen r0) r0)" "isSpaceRE c" by (auto simp: u_def w_def)
    from rune_space [OF ne this] un(2) show "length u = 1" by (simp add: w_def)
  qed
  from split r q(1) r0 have "s = indexText u q cap q' @ rest" by (simp add: indexText_def)
  moreover from m(2) q(6) un(2) have "n = length (indexText u q cap q')"
    by (simp add: indexText_def)
  ultimately show ?thesis using un(1) sp q(2,3,4,5) by blast
qed

lemma isQuote_not_space: "isQuote c \<Longrightarrow> \<not> isSpaceRE c"
  by (auto simp: isQuote_def isSpaceRE_def dquote_def squote_def)

lemma callText_no_space:
  assumes "isQuote q" "isQuote q'" "\<forall>c \<in> set cap. \<not> isSpaceRE c"
  shows "\<forall>c \<in> set (callText q cap q'). \<not> isSpaceRE c"
  using assms isQuote_not_space by (auto simp: callText_def isSpaceRE_def)


lemma prefix_of_longer:
  assumes "b @ rest = M @ tail" "length b < length M"
  shows "b = take (length b) M" "rest \<noteq> []" "hd rest = M ! length b"
proof -
  from assms(1) have "take (length b) (b @ rest) = take (length b) (M @ tail)" by simp
  with assms(2) show b: "b = take (length b) M" by simp
  from assms(1) have d: "drop (length b) (b @ rest) = drop (length b) (M @ tail)" by simp
  with assms(2) have r: "rest = drop (length b) M @ tail" by simp
  with assms(2) show "rest \<noteq> []" by simp
  from assms(2) have "drop (length b) M \<noteq> []" by simp
  then have "hd (drop (length b) M @ tail) = hd (drop (length b) M)" by simp
  with r assms(2) show "hd rest = M ! length b" by (simp add: hd_drop_conv_nth)
qed

lemma matchCall_stays:
  assumes "matchCall (b @ rest) = Some (cap, n)" "b \<noteq> []" "isSpaceRE (last b)"
  shows "n \<le> length b"
proof (rule ccontr)
  assume "\<not> n \<le> length b"
  from matchCall_shape [OF assms(1)] obtain q q' tail where
    m: "b @ rest = callText q cap q' @ tail" "n = length (callText q cap q')"
    "isQuote q" "isQuote q'" "\<forall>c \<in> set cap. \<not> isSpaceRE c" by blast
  with \<open>\<not> n \<le> length b\<close> have "length b < length (callText q cap q')" by simp
  from prefix_of_longer(1) [OF m(1) this] have "set b \<subseteq> set (callText q cap q')"
    by (metis set_take_subset)
  moreover from assms(2) have "last b \<in> set b" by simp
  ultimately have "last b \<in> set (callText q cap q')" by blast
  with callText_no_space [OF m(3,4,5)] assms(3) show False by blast
qed

lemma matchIndexed_stays:
  assumes "matchIndexed (b @ rest) = Some (cap, n)" "b \<noteq> []" "isSpaceRE (last b)"
    "hd rest = CHR ''m'' \<or> hd rest = CHR ''c''"
  shows "n \<le> length b"
proof (rule ccontr)
  assume "\<not> n \<le> length b"
  from matchIndexed_shape [OF assms(1)] obtain u q q' tail where
    m: "b @ rest = indexText u q cap q' @ tail" "n = length (indexText u q cap q')"
    "u \<noteq> []" "length u = 1 \<or> (\<forall>c \<in> set u. \<not> isSpaceRE c)"
    "isQuote q" "isQuote q'" "\<forall>c \<in> set cap. \<not> isSpaceRE c" by blast
  define W where "W = ''rule_providers['' @ q # cap @ q' # ''].match''"
  have Wns: "\<forall>c \<in> set W. \<not> isSpaceRE c"
    using m(5,6,7) isQuote_not_space by (auto simp: W_def isSpaceRE_def)
  have W0: "W ! 0 = CHR ''r''" "W \<noteq> []" by (simp_all add: W_def)
  from m(2) \<open>\<not> n \<le> length b\<close> have lt: "length b < length (indexText u q cap q')" by simp
  from prefix_of_longer [OF m(1) lt]
  have b: "b = take (length b) (indexText u q cap q')" and h: "hd rest = indexText u q cap q' ! length b"
    by auto
  from m(4) show False
  proof
    assume "\<forall>c \<in> set u. \<not> isSpaceRE c"
    with Wns have "\<forall>c \<in> set (indexText u q cap q'). \<not> isSpaceRE c"
      by (auto simp: indexText_def W_def isSpaceRE_def)
    moreover from b have "set b \<subseteq> set (indexText u q cap q')" by (metis set_take_subset)
    moreover from assms(2) have "last b \<in> set b" by simp
    ultimately show False using assms(3) by blast
  next
    assume "length u = 1"
    then obtain c where u: "u = [c]" by (cases u) auto
    have M: "indexText u q cap q' = CHR ''c'' # CHR ''t'' # CHR ''x'' # c # W"
      by (simp add: indexText_def W_def u)
    from assms(2) obtain k where k: "length b = Suc k" by (cases b) auto
    from assms(2) b k lt have lb: "last b = indexText u q cap q' ! k"
      by (metis last_conv_nth diff_Suc_1 lessI nth_take)
    have "k = 3"
    proof (rule ccontr)
      assume "k \<noteq> 3"
      then consider "k = 0" | "k = 1" | "k = 2" | "4 \<le> k" by linarith
      then have "\<not> isSpaceRE (indexText u q cap q' ! k)"
      proof cases
        case 4
        then obtain j where j: "k = 4 + j" by (metis le_Suc_ex)
        with lt k M have "j < length W" by simp
        with Wns have "\<not> isSpaceRE (W ! j)" by simp
        with j M show ?thesis by simp
      qed (simp_all add: M isSpaceRE_def)
      with lb assms(3) show False by simp
    qed
    with k h M W0 have "hd rest = CHR ''r''" by simp
    with assms(4) show False by simp
  qed
qed

lemma matchHere_stays:
  assumes "matchHere (b @ rest) = Some (g, n)" "b \<noteq> []" "isSpaceRE (last b)"
    "hd rest = CHR ''m'' \<or> hd rest = CHR ''c''"
  shows "n \<le> length b"
proof (cases "matchIndexed (b @ rest)")
  case (Some r)
  obtain cap m where "r = (cap, m)" by (cases r)
  with Some assms(1) have "matchIndexed (b @ rest) = Some (cap, n)" by (simp add: matchHere_def)
  from matchIndexed_stays [OF this assms(2,3,4)] show ?thesis .
next
  case None
  with assms(1) obtain cap where "matchCall (b @ rest) = Some (cap, n)"
    by (auto simp: matchHere_def split: option.splits)
  from matchCall_stays [OF this assms(2,3)] show ?thesis .
qed

text \<open>Scanning up to a boundary behind white space arrives there with nothing to skip.\<close>

lemma findAllSubmatch_boundary:
  assumes "pre = [] \<or> isSpaceRE (last pre)" "hd rest = CHR ''m'' \<or> hd rest = CHR ''c''"
    "k \<le> length pre"
  shows "\<exists>ms. findAllSubmatch k (pre @ rest) = ms @ findAllSubmatch 0 rest"
  using assms
proof (induction pre arbitrary: k)
  case Nil
  then show ?case by simp
next
  case (Cons c cs)
  from Cons.prems(1) have cs: "cs = [] \<or> isSpaceRE (last cs)" by (auto split: if_splits)
  show ?case
  proof (cases k)
    case (Suc k')
    with Cons.prems(3) have "k' \<le> length cs" by simp
    from Cons.IH [OF cs Cons.prems(2) this] Suc show ?thesis by simp
  next
    case 0
    show ?thesis
    proof (cases "matchHere ((c # cs) @ rest)")
      case None
      with 0 Cons.IH [OF cs Cons.prems(2), of 0] show ?thesis by simp
    next
      case (Some r)
      obtain g n where r: "r = (g, n)" by (cases r)
      from Cons.prems(1) have "isSpaceRE (last (c # cs))" by simp
      from matchHere_stays [OF Some [unfolded r] _ this Cons.prems(2)] have "n - 1 \<le> length cs"
        by simp
      from Cons.IH [OF cs Cons.prems(2) this] obtain ms where
        "findAllSubmatch (n - 1) (cs @ rest) = ms @ findAllSubmatch 0 rest" by blast
      with 0 Some r have "findAllSubmatch k ((c # cs) @ rest) = (g # ms) @ findAllSubmatch 0 rest"
        by simp
      then show ?thesis by blast
    qed
  qed
qed


lemma takeWhile_append_all:
  "\<forall>c \<in> set a. P c \<Longrightarrow> takeWhile P (a @ b) = a @ takeWhile P b"
  by (induction a) auto

lemma drop_Cons_nth:
  assumes "drop i ys = c # zs"
  shows "i < length ys" "ys ! i = c"
proof -
  from assms have "drop i ys \<noteq> []" by simp
  then show l: "i < length ys" by simp
  from hd_drop_conv_nth [OF l] assms show "ys ! i = c" by simp
qed

text \<open>Behind the run of characters that are not white space stands white space or nothing.\<close>

lemma no_quote_in_run:
  assumes "\<forall>c \<in> set (takeWhile (\<lambda>c. \<not> isSpaceRE c) ys). \<not> isQuote c"
    "i \<le> length (takeWhile (\<lambda>c. \<not> isSpaceRE c) ys)" "drop i ys = c # zs"
  shows "\<not> isQuote c"
proof (cases "i < length (takeWhile (\<lambda>c. \<not> isSpaceRE c) ys)")
  case True
  then have "takeWhile (\<lambda>c. \<not> isSpaceRE c) ys ! i \<in> set (takeWhile (\<lambda>c. \<not> isSpaceRE c) ys)"
    by simp
  moreover from True have "takeWhile (\<lambda>c. \<not> isSpaceRE c) ys ! i = ys ! i"
    by (rule takeWhile_nth)
  moreover note drop_Cons_nth(2) [OF assms(3)]
  ultimately show ?thesis using assms(1) by auto
next
  case False
  with assms(2) have i: "i = length (takeWhile (\<lambda>c. \<not> isSpaceRE c) ys)" by simp
  from drop_Cons_nth [OF assms(3)] have l: "i < length ys" "ys ! i = c" by auto
  from l(1) i have "\<not> (\<not> isSpaceRE (ys ! i))" using nth_length_takeWhile by blast
  with l(2) show ?thesis using isQuote_not_space by blast
qed

lemma quoted_delimited:
  assumes "x \<noteq> []" "\<forall>c \<in> set x. \<not> isSpaceRE c" "isQuote q" "isQuote q'"
    "\<forall>c \<in> set lit. \<not> isQuote c \<and> \<not> isSpaceRE c"
    "\<forall>c \<in> set (takeWhile (\<lambda>c. \<not> isSpaceRE c) post). \<not> isQuote c"
  shows "quoted lit (q # x @ q' # lit @ post) = Some (x, length x + 2 + length lit)"
proof -
  let ?r = "x @ q' # lit @ post"
  let ?tw = "takeWhile (\<lambda>c. \<not> isSpaceRE c) post"
  have "\<forall>c \<in> set (x @ q' # lit). \<not> isSpaceRE c"
    using assms(2,4,5) isQuote_not_space by auto
  from takeWhile_append_all [OF this, of post]
  have run: "takeWhile (\<lambda>c. \<not> isSpaceRE c) ?r = x @ q' # lit @ ?tw" by simp
  have c: "closesWith lit (drop (length x) ?r)" using assms(4) by (simp add: closesWith_def)
  have n: "\<forall>j. length x < j \<and> j \<le> length (x @ q' # lit @ ?tw) \<longrightarrow> \<not> closesWith lit (drop j ?r)"
  proof (intro allI impI notI)
    fix j assume j: "length x < j \<and> j \<le> length (x @ q' # lit @ ?tw)"
      and cw: "closesWith lit (drop j ?r)"
    define i where "i = j - length x - 1"
    with j have i: "j = length x + 1 + i" "i \<le> length lit + length ?tw" by auto
    then have d: "drop j ?r = drop i (lit @ post)" by simp
    from cw d obtain c zs where cz: "drop i (lit @ post) = c # zs" "isQuote c"
      by (auto simp: closesWith_def split: list.splits)
    show False
    proof (cases "i < length lit")
      case True
      from drop_Cons_nth(2) [OF cz(1)] True have "c = lit ! i" by (simp add: nth_append)
      with True assms(5) cz(2) show False by auto
    next
      case False
      define i' where "i' = i - length lit"
      with False have i': "i = length lit + i'" by simp
      with i(2) cz(1) have "i' \<le> length ?tw" "drop i' post = c # zs" by auto
      from no_quote_in_run [OF assms(6) this] cz(2) show False by simp
    qed
  qed
  from assms(1) have "0 < length x" by simp
  from backoff_exact [OF c this _ n]
  have b0: "backoff lit ?r (length (x @ q' # lit @ ?tw)) = Some (length x)" by simp
  have b: "backoff lit ?r (length (takeWhile (\<lambda>c. \<not> isSpaceRE c) ?r)) = Some (length x)"
    by (simp only: run b0)
  have t: "take (length x) ?r = x" by simp
  show ?thesis
    by (simp only: quoted_def list.case if_True assms(3) b option.case t) simp
qed


lemma matchHere_callRef_post:
  assumes "x \<noteq> []" "\<forall>c \<in> set x. \<not> isSpaceRE c"
    "\<forall>c \<in> set (takeWhile (\<lambda>c. \<not> isSpaceRE c) post). \<not> isQuote c"
  shows "matchHere (callRef x @ post) = Some ([[], x], length (callRef x))"
proof -
  have l: "\<forall>c \<in> set '')''. \<not> isQuote c \<and> \<not> isSpaceRE c"
    by (simp add: isQuote_def isSpaceRE_def dquote_def squote_def)
  from quoted_delimited [OF assms(1,2) _ _ l assms(3), of dquote dquote]
  have q: "quoted '')'' (dquote # x @ dquote # '')'' @ post) = Some (x, length x + 2 + length '')'')"
    by simp
  have i: "matchIndexed (callRef x @ post) = None" by (simp add: matchIndexed_def callRef_def)
  have "matchCall (callRef x @ post) = Some (x, length (callRef x))"
    using q by (simp add: matchCall_def callRef_def)
  with i show ?thesis by (simp add: matchHere_def)
qed

lemma matchHere_indexRef_post:
  assumes "x \<noteq> []" "\<forall>c \<in> set x. \<not> isSpaceRE c"
    "\<forall>c \<in> set (takeWhile (\<lambda>c. \<not> isSpaceRE c) post). \<not> isQuote c"
  shows "matchHere (indexRef x @ post) = Some ([x, []], length (indexRef x))"
proof -
  have l: "\<forall>c \<in> set ''].match''. \<not> isQuote c \<and> \<not> isSpaceRE c"
    by (simp add: isQuote_def isSpaceRE_def dquote_def squote_def)
  from quoted_delimited [OF assms(1,2) _ _ l assms(3), of dquote dquote]
  have q: "quoted ''].match'' (dquote # x @ dquote # ''].match'' @ post) =
     Some (x, length x + 2 + length ''].match'')"
    by simp
  have "matchIndexed (indexRef x @ post) = Some (x, length (indexRef x))"
    using q by (simp add: matchIndexed_def indexRef_def runeLen_def)
  then show ?thesis by (simp add: matchHere_def)
qed

lemma set_Uniq: "set (Uniq xs) = set xs"
  by (simp add: Uniq_def)

lemma found_behind_boundary:
  assumes "matchHere (R @ post) = Some (g, n)" "x \<in> set g" "x \<noteq> []" "R \<noteq> []"
    "hd R = CHR ''m'' \<or> hd R = CHR ''c''" "pre = [] \<or> isSpaceRE (last pre)"
  shows "x \<in> set (findRuleProvidersName (pre @ R @ post))"
proof -
  from assms(4,5) have h: "hd (R @ post) = CHR ''m'' \<or> hd (R @ post) = CHR ''c''" by simp
  from findAllSubmatch_boundary [OF assms(6) h, of 0] obtain ms0 where
    ms0: "findAllSubmatch 0 (pre @ R @ post) = ms0 @ findAllSubmatch 0 (R @ post)" by auto
  from assms(4) obtain c cs where c: "R @ post = c # cs" by (cases R) auto
  with assms(1) have "findAllSubmatch 0 (R @ post) = g # findAllSubmatch (n - 1) cs" by simp
  with ms0 have "g \<in> set (findAllSubmatch 0 (pre @ R @ post))" by simp
  with assms(2,3) show ?thesis
    by (auto simp: findRuleProvidersName_def set_Uniq)
qed

lemma findRuleProvidersName_delimited:
  assumes "x \<noteq> []" "\<forall>c \<in> set x. \<not> isSpaceRE c" "pre = [] \<or> isSpaceRE (last pre)"
    "\<forall>c \<in> set (takeWhile (\<lambda>c. \<not> isSpaceRE c) post). \<not> isQuote c"
  shows "x \<in> set (findRuleProvidersName (pre @ callRef x @ post))"
    "x \<in> set (findRuleProvidersName (pre @ indexRef x @ post))"
proof -
  have c: "callRef x \<noteq> []" "hd (callRef x) = CHR ''m'' \<or> hd (callRef x) = CHR ''c''"
    by (simp_all add: callRef_def)
  from found_behind_boundary [OF matchHere_callRef_post [OF assms(1,2,4)] _ assms(1) c assms(3)]
  show "x \<in> set (findRuleProvidersName (pre @ callRef x @ post))" by simp
  have i: "indexRef x \<noteq> []" "hd (indexRef x) = CHR ''m'' \<or> hd (indexRef x) = CHR ''c''"
    by (simp_all add: indexRef_def)
  from found_behind_boundary [OF matchHere_indexRef_post [OF assms(1,2,4)] _ assms(1) i assms(3)]
  show "x \<in> set (findRuleProvidersName (pre @ indexRef x @ post))" by simp
qed

lemma findRuleProvidersName_eval:
  "findRuleProvidersName (callRef ''nosuch'') = [''nosuch'']"
  "findRuleProvidersName (callRef ''a'' @ ''||'' @ callRef ''b'') =
     [''a'' @ [dquote] @ '')||match_provider('' @ [dquote] @ ''b'']"
proof -
  show "findRuleProvidersName (callRef ''nosuch'') = [''nosuch'']"
    by (rule findRuleProvidersName_single) (simp_all add: isSpaceRE_def)
  show "findRuleProvidersName (callRef ''a'' @ ''||'' @ callRef ''b'') =
     [''a'' @ [dquote] @ '')||match_provider('' @ [dquote] @ ''b'']"
    by (simp add: findRuleProvidersName_def Uniq_def matchHere_def matchIndexed_def matchCall_def
        quoted_def closesWith_def callRef_def isQuote_def isSpaceRE_def dquote_def squote_def)
qed

subsection \<open>Rule lines appended for a script\<close>

lemma parseFrom_append:
  "parseFrom env px i (xs @ ys) st =
     (case parseFrom env px i xs st of
        Inl e \<Rightarrow> Inl e
      | Inr (r1, s1) \<Rightarrow>
          (case parseFrom env px (i + length xs) ys s1 of
             Inl e \<Rightarrow> Inl e
           | Inr (r2, s2) \<Rightarrow> Inr (r1 @ r2, s2)))"
proof (induction xs arbitrary: i st)
  case Nil
  then show ?case by (simp split: sum.splits prod.splits)
next
  case (Cons x xs)
  show ?case
  proof (cases "parseRaw env px i x st")
    case (Inl e)
    then show ?thesis by simp
  next
    case (Inr p)
    obtain rs st1 where p: "p = (rs, st1)" by (cases p)
    from Inr p Cons.IH [of "i + 1" st1] show ?thesis
      by (simp split: sum.splits prod.splits)
  qed
qed

lemma ToUpper_GEOSITE: "ToUpper env ''GEOSITE'' = ''GEOSITE''"
  by (simp add: ToUpper_def isASCII_def upperASCII_def)

lemma geositeLine_not_empty: "geositeLine env v \<noteq> []"
  by (simp add: geositeLine_def)

text \<open>
  The rule line of a name: a provider found under the lower-cased name is kept and
  nothing is appended; otherwise the rule \<open>R.ParseRule\<close> builds is stored under that
  key, with its matcher set if it is a script rule.
\<close>

lemma parseLine_geosite_found:
  assumes "fieldsKept env v" "ruleProviders st (ToLower env v) \<noteq> None"
  shows "parseLine env px idx (geositeLine env v) st = Inr ([], st)"
  using assms(2) assms(1) [unfolded fieldsKept_def]
  by (simp add: parseLine_def Let_def ToUpper_GEOSITE numeral_3_eq_3)

lemma parseLine_geosite_new:
  assumes "fieldsKept env v" "ruleProviders st (ToLower env v) = None"
    "parseLine env px idx (geositeLine env v) st = Inr (rs, st')"
  shows "\<exists>r0 r. ParseRule env ''GEOSITE'' v (ScriptRuleGeoSiteTarget env) (trimArr env [[]]) =
            Inr r0 \<and>
          (r = r0 \<or> rType r0 = Script \<and> (\<exists>m. r = SetMatcher m r0)) \<and> rs = [r] \<and>
          st' = st\<lparr>ruleProviders := (ruleProviders st)(ToLower env v \<mapsto> r),
                   shared := shared st @ [ToLower env v]\<rparr>"
proof -
  let ?T = "ScriptRuleGeoSiteTarget env"
  note fk = assms(1) [unfolded fieldsKept_def]
  show ?thesis
  proof (cases "ParseRule env ''GEOSITE'' v ?T (trimArr env [[]])")
    case (Inl e)
    with assms(2,3) fk show ?thesis
      by (simp add: parseLine_def Let_def ToUpper_GEOSITE numeral_3_eq_3)
  next
    case (Inr r0)
    show ?thesis
    proof (cases "rType r0 = Script")
      case False
      with Inr assms(2,3) fk show ?thesis
        by (auto simp: parseLine_def Let_def ToUpper_GEOSITE numeral_3_eq_3)
    next
      case True
      show ?thesis
      proof (cases "matchers st v")
        case None
        with True Inr assms(2,3) fk show ?thesis
          by (simp add: parseLine_def Let_def ToUpper_GEOSITE numeral_3_eq_3)
      next
        case (Some m)
        with True Inr assms(2,3) fk show ?thesis
          by (auto simp: parseLine_def Let_def ToUpper_GEOSITE numeral_3_eq_3)
      qed
    qed
  qed
qed

lemma parseFrom_lines:
  assumes "\<forall>v \<in> set ns. fieldsKept env v"
    "parseFrom env px i (map (\<lambda>v. lineRule (geositeLine env v)) ns) st = Inr (rs, st')"
  shows "(\<forall>k. ruleProviders st k \<noteq> None \<longrightarrow> ruleProviders st' k = ruleProviders st k) \<and>
         (\<forall>x \<in> set ns. ruleProviders st (ToLower env x) = None \<longrightarrow>
            (\<exists>y \<in> set ns. ToLower env y = ToLower env x \<and>
               (\<exists>r0 r. ParseRule env ''GEOSITE'' y (ScriptRuleGeoSiteTarget env)
                          (trimArr env [[]]) = Inr r0 \<and>
                        ruleProviders st' (ToLower env x) = Some r \<and>
                        (r = r0 \<or> rType r0 = Script \<and> (\<exists>m. r = SetMatcher m r0)))))"
  using assms
proof (induction ns arbitrary: i st rs)
  case Nil
  then show ?case by simp
next
  case (Cons n ns)
  let ?T = "ScriptRuleGeoSiteTarget env"
  from Cons.prems(1) have fk: "fieldsKept env n" "\<forall>v \<in> set ns. fieldsKept env v" by auto
  have raw: "parseRaw env px i (lineRule (geositeLine env n)) st =
      parseLine env px i (geositeLine env n) st"
    by (simp add: lineRule_def geositeLine_not_empty)
  from Cons.prems(2) raw obtain rs1 st1 rs2 where
    one: "parseLine env px i (geositeLine env n) st = Inr (rs1, st1)" and
    rest: "parseFrom env px (i + 1) (map (\<lambda>v. lineRule (geositeLine env v)) ns) st1 =
      Inr (rs2, st')"
    by (auto split: sum.splits prod.splits)
  note IH = Cons.IH [OF fk(2) rest]
  show ?case
  proof (cases "ruleProviders st (ToLower env n) = None")
    case False
    from parseLine_geosite_found [OF fk(1) False, of px i] one have st1: "st1 = st" by simp
    from IH st1 False show ?thesis by auto
  next
    case True
    from parseLine_geosite_new [OF fk(1) True one] obtain r0 r where
      b0: "ParseRule env ''GEOSITE'' n ?T (trimArr env [[]]) = Inr r0"
         "r = r0 \<or> rType r0 = Script \<and> (\<exists>m. r = SetMatcher m r0)"
         "st1 = st\<lparr>ruleProviders := (ruleProviders st)(ToLower env n \<mapsto> r),
                     shared := shared st @ [ToLower env n]\<rparr>"
      by blast
    from b0(3) have b3: "ruleProviders st1 = (ruleProviders st)(ToLower env n \<mapsto> r)"
      by simp
    note b = b0(1,2) b3
    have keep: "\<forall>k. ruleProviders st k \<noteq> None \<longrightarrow> ruleProviders st' k = ruleProviders st k"
    proof (intro allI impI)
      fix k assume k: "ruleProviders st k \<noteq> None"
      with True have "k \<noteq> ToLower env n" by auto
      with b(3) k have "ruleProviders st1 k = ruleProviders st k" "ruleProviders st1 k \<noteq> None"
        by simp_all
      with IH show "ruleProviders st' k = ruleProviders st k" by simp
    qed
    have new: "\<forall>x \<in> set (n # ns). ruleProviders st (ToLower env x) = None \<longrightarrow>
            (\<exists>y \<in> set (n # ns). ToLower env y = ToLower env x \<and>
               (\<exists>r0 r. ParseRule env ''GEOSITE'' y ?T (trimArr env [[]]) = Inr r0 \<and>
                        ruleProviders st' (ToLower env x) = Some r \<and>
                        (r = r0 \<or> rType r0 = Script \<and> (\<exists>m. r = SetMatcher m r0))))"
    proof (intro ballI impI)
      fix x assume x: "x \<in> set (n # ns)" "ruleProviders st (ToLower env x) = None"
      show "\<exists>y \<in> set (n # ns). ToLower env y = ToLower env x \<and>
               (\<exists>r0 r. ParseRule env ''GEOSITE'' y ?T (trimArr env [[]]) = Inr r0 \<and>
                        ruleProviders st' (ToLower env x) = Some r \<and>
                        (r = r0 \<or> rType r0 = Script \<and> (\<exists>m. r = SetMatcher m r0)))"
      proof (cases "ToLower env x = ToLower env n")
        case same: True
        from b(3) have "ruleProviders st1 (ToLower env n) = Some r" by simp
        with IH have "ruleProviders st' (ToLower env n) = Some r" by simp
        with same b(1,2) show ?thesis by (intro bexI [of _ n]) auto
      next
        case other: False
        with x(1) have xin: "x \<in> set ns" by auto
        from other b(3) x(2) have "ruleProviders st1 (ToLower env x) = None" by simp
        with IH xin obtain y where "y \<in> set ns" "ToLower env y = ToLower env x"
          "\<exists>r0 r. ParseRule env ''GEOSITE'' y ?T (trimArr env [[]]) = Inr r0 \<and>
                        ruleProviders st' (ToLower env x) = Some r \<and>
                        (r = r0 \<or> rType r0 = Script \<and> (\<exists>m. r = SetMatcher m r0))"
          by blast
        then show ?thesis by (intro bexI [of _ y]) auto
      qed
    qed
    from keep new show ?thesis by blast
  qed
qed

lemma parseRules_script:
  assumes "\<forall>v \<in> set (findRuleProvidersName content). fieldsKept env v"
    "parseRules env px ms (scriptRuleLines env content rawRules) = Inr (rules, rp)"
  shows "\<exists>rules1 st1.
     parseRawRules env px rawRules \<lparr> ruleProviders = Map.empty, matchers = ms, shared = [] \<rparr> =
       Inr (rules1, st1) \<and>
     (\<forall>k. ruleProviders st1 k \<noteq> None \<longrightarrow> rp k = ruleProviders st1 k) \<and>
     (\<forall>x \<in> set (findRuleProvidersName content). ruleProviders st1 (ToLower env x) = None \<longrightarrow>
        (\<exists>y \<in> set (findRuleProvidersName content). ToLower env y = ToLower env x \<and>
           (\<exists>r0 r. ParseRule env ''GEOSITE'' y (ScriptRuleGeoSiteTarget env)
                      (trimArr env [[]]) = Inr r0 \<and>
                    rp (ToLower env x) = Some r \<and>
                    (r = r0 \<or> rType r0 = Script \<and> (\<exists>m. r = SetMatcher m r0)))))"
proof -
  let ?st0 = "\<lparr> ruleProviders = Map.empty, matchers = ms, shared = [] \<rparr>"
  let ?ls = "map (\<lambda>v. lineRule (geositeLine env v)) (findRuleProvidersName content)"
  from assms(2) obtain st' where
    all: "parseFrom env px 0 (rawRules @ ?ls) ?st0 = Inr (rules, st')" and rp: "rp = ruleProviders st'"
    by (auto simp: parseRules_def parseRawRules_def scriptRuleLines_def
        split: sum.splits prod.splits)
  from all obtain rules1 st1 rules2 where
    one: "parseFrom env px 0 rawRules ?st0 = Inr (rules1, st1)" and
    two: "parseFrom env px (0 + length rawRules) ?ls st1 = Inr (rules2, st')"
    unfolding parseFrom_append by (auto split: sum.splits prod.splits)
  from parseFrom_lines [OF assms(1) two] one rp show ?thesis
    by (simp add: parseRawRules_def)
qed

lemma lower_eval: "ToLower env ''Google'' = ''google''" "ToLower env ''nosuch'' = ''nosuch''"
  "ToLower env ''a'' = ''a''" "ToLower env [] = []"
  unfolding ToLower_def isASCII_def lowerASCII_def by code_simp+

lemma upper_eval: "ToUpper env ''MATCH'' = ''MATCH''"
  by (simp add: ToUpper_def isASCII_def upperASCII_def)

lemma parseRules_eval:
  "parseRules ruleEnv0 proxies0 Map.empty
     (scriptRuleLines ruleEnv0 (callRef ''Google'') [lineRule ''MATCH,DIRECT'']) =
   Inr ([Rule (OtherType ''MATCH'') [] ''DIRECT'' [] None [],
         Rule GEOSITE ''Google'' ''__TARGET__'' [] None []],
        [''google'' \<mapsto> Rule GEOSITE ''Google'' ''__TARGET__'' [] None []])"
  "parseRules ruleEnv0 proxies0 Map.empty
     [RawRule (callRef ''nosuch'') ''g'' ''expr'' [lineRule ''MATCH,DIRECT''] []] =
   Inr ([Rule Group (''g ('' @ callRef ''nosuch'' @ '')'') [] []
           (Some (ExprMatcher ''g'' (callRef ''nosuch'')))
           [Rule (OtherType ''MATCH'') [] ''DIRECT'' [''g''] None []]],
        Map.empty)"
  "parseRules ruleEnv0 proxies0 Map.empty (scriptRuleLines ruleEnv0 (callRef ''a,b'') []) =
   Inr ([Rule GEOSITE ''a'' ''b'' [] None []], [''a'' \<mapsto> Rule GEOSITE ''a'' ''b'' [] None []])"
proof -
  have f: "findRuleProvidersName (callRef ''Google'') = [''Google'']"
    "findRuleProvidersName (callRef ''nosuch'') = [''nosuch'']"
    "findRuleProvidersName (callRef ''a,b'') = [''a,b'']"
    by (rule findRuleProvidersName_single; simp add: isSpaceRE_def)+
  show "parseRules ruleEnv0 proxies0 Map.empty
     (scriptRuleLines ruleEnv0 (callRef ''Google'') [lineRule ''MATCH,DIRECT'']) =
   Inr ([Rule (OtherType ''MATCH'') [] ''DIRECT'' [] None [],
         Rule GEOSITE ''Google'' ''__TARGET__'' [] None []],
        [''google'' \<mapsto> Rule GEOSITE ''Google'' ''__TARGET__'' [] None []])"
    by (simp add: parseRules_def parseRawRules_def scriptRuleLines_def f lineRule_def
        geositeLine_def parseLine_def Let_def ToUpper_GEOSITE upper_eval lower_eval
        ruleEnv0_def proxies0_def)
  show "parseRules ruleEnv0 proxies0 Map.empty
     [RawRule (callRef ''nosuch'') ''g'' ''expr'' [lineRule ''MATCH,DIRECT''] []] =
   Inr ([Rule Group (''g ('' @ callRef ''nosuch'' @ '')'') [] []
           (Some (ExprMatcher ''g'' (callRef ''nosuch'')))
           [Rule (OtherType ''MATCH'') [] ''DIRECT'' [''g''] None []]],
        Map.empty)"
    by (simp add: parseRules_def parseRawRules_def f lineRule_def parseLine_def Let_def
        upper_eval lower_eval ruleEnv0_def proxies0_def groupRuleProviders_def
        appendRuleGroupName_def NewGroup_def)
  show "parseRules ruleEnv0 proxies0 Map.empty (scriptRuleLines ruleEnv0 (callRef ''a,b'') []) =
   Inr ([Rule GEOSITE ''a'' ''b'' [] None []], [''a'' \<mapsto> Rule GEOSITE ''a'' ''b'' [] None []])"
    by (simp add: parseRules_def parseRawRules_def scriptRuleLines_def f lineRule_def
        geositeLine_def parseLine_def Let_def ToUpper_GEOSITE lower_eval
        ruleEnv0_def proxies0_def)
qed

text \<open>
  C5, as stated, fails: a group rule whose \<open>if\<close> refers to the provider \<open>nosuch\<close>, for
  which no GEOSITE rule can be built, parses without error and registers nothing,
  although no provider of that name existed: the loop skips the name. And a script that
  refers to the provider \<open>a,b\<close> parses without error and leaves no provider of that
  name: its rule line is split at the comma of the name.
\<close>

theorem provider_registration_claim_counterexample:
  "findRuleProvidersName (callRef ''nosuch'') = [''nosuch''] \<and>
   groupRuleProviders ruleEnv0 (callRef ''nosuch'') Map.empty ''nosuch'' = None \<and>
   parseRules ruleEnv0 proxies0 Map.empty
     [RawRule (callRef ''nosuch'') ''g'' ''expr'' [lineRule ''MATCH,DIRECT''] []] =
   Inr ([Rule Group (''g ('' @ callRef ''nosuch'' @ '')'') [] []
           (Some (ExprMatcher ''g'' (callRef ''nosuch'')))
           [Rule (OtherType ''MATCH'') [] ''DIRECT'' [''g''] None []]],
        Map.empty) \<and>
   findRuleProvidersName (callRef ''a,b'') = [''a,b''] \<and>
   parseRules ruleEnv0 proxies0 Map.empty (scriptRuleLines ruleEnv0 (callRef ''a,b'') []) =
   Inr ([Rule GEOSITE ''a'' ''b'' [] None []], [''a'' \<mapsto> Rule GEOSITE ''a'' ''b'' [] None []])"
proof -
  have f: "findRuleProvidersName (callRef ''nosuch'') = [''nosuch'']"
    "findRuleProvidersName (callRef ''a,b'') = [''a,b'']"
    by (rule findRuleProvidersName_single; simp add: isSpaceRE_def)+
  have g: "groupRuleProviders ruleEnv0 (callRef ''nosuch'') Map.empty ''nosuch'' = None"
    by (simp add: groupRuleProviders_def f lower_eval ruleEnv0_def)
  from f g parseRules_eval(2,3) show ?thesis by simp
qed

text \<open>
  C5 (amended): a reference \<open>match_provider("X")\<close> or \<open>ctx.rule_providers["X"].match\<close>
  with a non-empty name \<open>X\<close> free of white space is found with its name when it starts
  the text or follows white space and no quote character stands between its end and the
  next white space. For a group rule, every name found in its \<open>if\<close> is registered under
  its lower-cased form as the GEOSITE rule built for it, unless a provider of that form
  exists already (it is kept) or the rule cannot be built (the name is skipped); no other
  key changes. For the main script and the shortcuts: when the rule line of every name
  found falls into the fields \<open>GEOSITE\<close>, name and target, and the rules parse without
  error, then the providers that the rules at hand registered are kept, and the
  lower-cased form of every name found is a key of the providers; where the rules at hand
  registered nothing under it, it holds the rule that \<open>R.ParseRule\<close> built as a GEOSITE
  rule for a name found of that lower-cased form (with its matcher set, were it a script
  rule).
\<close>

theorem provider_names_registered:
  "(x \<noteq> [] \<and> (\<forall>c \<in> set x. \<not> isSpaceRE c) \<and> (pre = [] \<or> isSpaceRE (last pre)) \<and>
    (\<forall>c \<in> set (takeWhile (\<lambda>c. \<not> isSpaceRE c) post). \<not> isQuote c) \<longrightarrow>
      x \<in> set (findRuleProvidersName (pre @ callRef x @ post)) \<and>
      x \<in> set (findRuleProvidersName (pre @ indexRef x @ post))) \<and>
   groupRuleProviders env cond rp0 k =
     (if rp0 k \<noteq> None then rp0 k
      else if k \<in> ToLower env ` set (findRuleProvidersName cond) then
        (case NewGEOSITE env k (ScriptRuleGeoSiteTarget env) of
           Inl e \<Rightarrow> None
         | Inr r \<Rightarrow> Some r)
      else None) \<and>
   ((\<forall>v \<in> set (findRuleProvidersName content). fieldsKept env v) \<and>
    parseRules env proxies ms (scriptRuleLines env content rawRules) = Inr (rules, rp) \<longrightarrow>
      (\<exists>rules1 st1.
         parseRawRules env proxies rawRules
           \<lparr> ruleProviders = Map.empty, matchers = ms, shared = [] \<rparr> = Inr (rules1, st1) \<and>
         (\<forall>k. ruleProviders st1 k \<noteq> None \<longrightarrow> rp k = ruleProviders st1 k) \<and>
         (\<forall>x \<in> set (findRuleProvidersName content).
            rp (ToLower env x) \<noteq> None \<and>
            (ruleProviders st1 (ToLower env x) = None \<longrightarrow>
               (\<exists>y \<in> set (findRuleProvidersName content). ToLower env y = ToLower env x \<and>
                  (\<exists>r0 r. ParseRule env ''GEOSITE'' y (ScriptRuleGeoSiteTarget env)
                             (trimArr env [[]]) = Inr r0 \<and>
                           rp (ToLower env x) = Some r \<and>
                           (r = r0 \<or> rType r0 = Script \<and> (\<exists>m. r = SetMatcher m r0))))))))"
proof -
  have 1: "x \<noteq> [] \<and> (\<forall>c \<in> set x. \<not> isSpaceRE c) \<and> (pre = [] \<or> isSpaceRE (last pre)) \<and>
    (\<forall>c \<in> set (takeWhile (\<lambda>c. \<not> isSpaceRE c) post). \<not> isQuote c) \<longrightarrow>
      x \<in> set (findRuleProvidersName (pre @ callRef x @ post)) \<and>
      x \<in> set (findRuleProvidersName (pre @ indexRef x @ post))"
    using findRuleProvidersName_delimited [of x pre post] by blast
  have 2: "groupRuleProviders env cond rp0 k =
     (if rp0 k \<noteq> None then rp0 k
      else if k \<in> ToLower env ` set (findRuleProvidersName cond) then
        (case NewGEOSITE env k (ScriptRuleGeoSiteTarget env) of
           Inl e \<Rightarrow> None
         | Inr r \<Rightarrow> Some r)
      else None)"
    unfolding groupRuleProviders_def by (rule registerProviders_closed)
  have 3: "\<exists>rules1 st1.
         parseRawRules env proxies rawRules
           \<lparr> ruleProviders = Map.empty, matchers = ms, shared = [] \<rparr> = Inr (rules1, st1) \<and>
         (\<forall>k. ruleProviders st1 k \<noteq> None \<longrightarrow> rp k = ruleProviders st1 k) \<and>
         (\<forall>x \<in> set (findRuleProvidersName content).
            rp (ToLower env x) \<noteq> None \<and>
            (ruleProviders st1 (ToLower env x) = None \<longrightarrow>
               (\<exists>y \<in> set (findRuleProvidersName content). ToLower env y = ToLower env x \<and>
                  (\<exists>r0 r. ParseRule env ''GEOSITE'' y (ScriptRuleGeoSiteTarget env)
                             (trimArr env [[]]) = Inr r0 \<and>
                           rp (ToLower env x) = Some r \<and>
                           (r = r0 \<or> rType r0 = Script \<and> (\<exists>m. r = SetMatcher m r0))))))"
    if a: "(\<forall>v \<in> set (findRuleProvidersName content). fieldsKept env v) \<and>
      parseRules env proxies ms (scriptRuleLines env content rawRules) = Inr (rules, rp)"
  proof -
    from a have a1: "\<forall>v \<in> set (findRuleProvidersName content). fieldsKept env v"
      and a2: "parseRules env proxies ms (scriptRuleLines env content rawRules) = Inr (rules, rp)"
      by auto
    from parseRules_script [OF a1 a2] obtain rules1 st1 where
      p: "parseRawRules env proxies rawRules
           \<lparr> ruleProviders = Map.empty, matchers = ms, shared = [] \<rparr> = Inr (rules1, st1)"
      and keep: "\<forall>k. ruleProviders st1 k \<noteq> None \<longrightarrow> rp k = ruleProviders st1 k"
      and new: "\<forall>x \<in> set (findRuleProvidersName content).
        ruleProviders st1 (ToLower env x) = None \<longrightarrow>
        (\<exists>y \<in> set (findRuleProvidersName content). ToLower env y = ToLower env x \<and>
           (\<exists>r0 r. ParseRule env ''GEOSITE'' y (ScriptRuleGeoSiteTarget env)
                      (trimArr env [[]]) = Inr r0 \<and>
                    rp (ToLower env x) = Some r \<and>
                    (r = r0 \<or> rType r0 = Script \<and> (\<exists>m. r = SetMatcher m r0))))"
      by blast
    have "\<forall>x \<in> set (findRuleProvidersName content). rp (ToLower env x) \<noteq> None"
    proof
      fix x assume x: "x \<in> set (findRuleProvidersName content)"
      show "rp (ToLower env x) \<noteq> None"
      proof (cases "ruleProviders st1 (ToLower env x) = None")
        case True
        with new x show ?thesis by fastforce
      next
        case False
        with keep show ?thesis by simp
      qed
    qed
    with p keep new show ?thesis by blast
  qed
  from 1 2 3 show ?thesis by blast
qed

theorem provider_names_registered_witness:
  "''Google'' \<in> set (findRuleProvidersName (''not '' @ callRef ''Google'' @ '' and x'')) \<and>
   groupRuleProviders ruleEnv0 (callRef ''Google'') Map.empty ''google'' =
     Some (Rule GEOSITE ''google'' ''__TARGET__'' [] None []) \<and>
   fieldsKept ruleEnv0 ''Google'' \<and>
   (case parseRules ruleEnv0 proxies0 Map.empty
           (scriptRuleLines ruleEnv0 (callRef ''Google'') [lineRule ''MATCH,DIRECT'']) of
      Inl e \<Rightarrow> False
    | Inr (rules, rp) \<Rightarrow>
        rp ''google'' = Some (Rule GEOSITE ''Google'' ''__TARGET__'' [] None []))"
proof -
  let ?r = "Rule GEOSITE ''Google'' ''__TARGET__'' [] None []"
  let ?m = "Rule (OtherType ''MATCH'') [] ''DIRECT'' [] None []"
  have s: "''Google'' \<noteq> [] \<and> (\<forall>c \<in> set ''Google''. \<not> isSpaceRE c) \<and>
      (''not '' = [] \<or> isSpaceRE (last ''not '')) \<and>
      (\<forall>c \<in> set (takeWhile (\<lambda>c. \<not> isSpaceRE c) '' and x''). \<not> isQuote c)"
    by (simp add: isSpaceRE_def)
  have f: "findRuleProvidersName (callRef ''Google'') = [''Google'']"
    by (rule findRuleProvidersName_single) (simp_all add: isSpaceRE_def)
  have k: "fieldsKept ruleEnv0 ''Google''"
    by (simp add: fieldsKept_def geositeLine_def ruleEnv0_def)
  note T = provider_names_registered [of "''Google''" "''not ''" "'' and x''" ruleEnv0
      "callRef ''Google''" Map.empty "''google''" "callRef ''Google''" proxies0 Map.empty
      "[lineRule ''MATCH,DIRECT'']" "[?m, ?r]" "[''google'' \<mapsto> ?r]"]
  from T s
  have m: "''Google'' \<in> set (findRuleProvidersName (''not '' @ callRef ''Google'' @ '' and x''))"
    and g: "groupRuleProviders ruleEnv0 (callRef ''Google'') Map.empty ''google'' =
     (if ''google'' \<in> ToLower ruleEnv0 ` set (findRuleProvidersName (callRef ''Google'')) then
        (case NewGEOSITE ruleEnv0 ''google'' (ScriptRuleGeoSiteTarget ruleEnv0) of
           Inl e \<Rightarrow> None
         | Inr r \<Rightarrow> Some r)
      else None)"
    by simp_all
  from g f have g': "groupRuleProviders ruleEnv0 (callRef ''Google'') Map.empty ''google'' =
     Some (Rule GEOSITE ''google'' ''__TARGET__'' [] None [])"
    by (simp add: lower_eval ruleEnv0_def)
  from T [THEN conjunct2, THEN conjunct2, rule_format, OF conjI] k f parseRules_eval(1)
  have "[''google'' \<mapsto> ?r] (ToLower ruleEnv0 ''Google'') \<noteq> None"
    by (auto simp: lower_eval)
  with m g' k parseRules_eval(1) show ?thesis by (simp add: lower_eval)
qed

end
